theory Spec2Isabelle
  imports Complex_Main
begin

section \<open>Strings: the Python library operations used by \<open>infer_ext\<close>\<close>

text \<open>
  Python strings are modelled as \<open>string\<close>, a list of 8-bit characters read as code
  points below 256. \<open>str.lower()\<close> maps the ASCII capitals and the Latin-1 capitals
  (0xC0 to 0xDE, without the multiplication sign 0xD7) to their small letters and leaves
  every other such character alone. The tokens searched for below consist of the ASCII
  letters b, e, g, j, n, p, w only, and no character outside ASCII lowers or case-folds
  to one of them, so a code point above 255 behaves like any other non-matching character.
\<close>

definition lower_char :: "char \<Rightarrow> char" where
  "lower_char c =
     (let n = (of_char c :: nat)
      in if (65 \<le> n \<and> n \<le> 90) \<or> (192 \<le> n \<and> n \<le> 222 \<and> n \<noteq> 215)
         then char_of (n + 32) else c)"

definition lower :: "string \<Rightarrow> string" where
  "lower s = map lower_char s"

text \<open>\<open>pat in s\<close> on strings: \<open>pat\<close> occurs as a contiguous substring of \<open>s\<close>.\<close>

fun starts_with :: "string \<Rightarrow> string \<Rightarrow> bool" where
  "starts_with [] s = True"
| "starts_with (p # ps) [] = False"
| "starts_with (p # ps) (c # cs) = (p = c \<and> starts_with ps cs)"

fun contains :: "string \<Rightarrow> string \<Rightarrow> bool" where
  "contains pat [] = (pat = [])"
| "contains pat (c # cs) = (starts_with pat (c # cs) \<or> contains pat cs)"

text \<open>
  \<open>re.search(r"\.(jpe?g|png|webp)(?:\?|$)", url, flags=re.I)\<close>.
  \<open>ext_follow\<close> is the group \<open>(?:\?|$)\<close> seen from the rest of the string: a question
  mark comes next, or the string ends here, or (Python's \<open>$\<close> without MULTILINE) only
  a final newline is left. \<open>try_token tok r\<close> matches the letters of \<open>tok\<close> in any
  case at the head of \<open>r\<close>, then that group, and returns the matched text.
  \<open>match_ext_at\<close> tries the pattern at the head of its
  argument, the alternatives in the order the regex engine tries them (\<open>jpe?g\<close> with
  the greedy optional \<open>e\<close> first, then without it, then \<open>png\<close>, then \<open>webp\<close>), and
  returns group 1 as it stands in the string. \<open>re_search\<close> returns group 1 of the
  leftmost match.
\<close>

definition ext_follow :: "string \<Rightarrow> bool" where
  "ext_follow r = (case r of [] \<Rightarrow> True
                   | c # cs \<Rightarrow> c = CHR ''?'' \<or> (c = CHR 0x0A \<and> cs = []))"

definition try_token :: "string \<Rightarrow> string \<Rightarrow> string option" where
  "try_token tok r =
     (if lower (take (length tok) r) = tok \<and> ext_follow (drop (length tok) r)
      then Some (take (length tok) r) else None)"

definition match_ext_at :: "string \<Rightarrow> string option" where
  "match_ext_at s =
     (case s of [] \<Rightarrow> None
      | d # r \<Rightarrow>
          if d \<noteq> CHR ''.'' then None
          else (case try_token ''jpeg'' r of Some g \<Rightarrow> Some g | None \<Rightarrow>
               (case try_token ''jpg'' r of Some g \<Rightarrow> Some g | None \<Rightarrow>
               (case try_token ''png'' r of Some g \<Rightarrow> Some g | None \<Rightarrow>
                try_token ''webp'' r))))"

fun re_search :: "string \<Rightarrow> string option" where
  "re_search [] = None"
| "re_search (c # cs) =
     (case match_ext_at (c # cs) of Some g \<Rightarrow> Some g | None \<Rightarrow> re_search cs)"

section \<open>\<open>infer_ext\<close> (posters.py and download-images/script.py)\<close>

text \<open>
  \<open>content_type\<close> is \<open>Optional[str]\<close>; \<open>if content_type:\<close> is false for \<open>None\<close> and
  for the empty string. When no content-type branch returns, control falls through to the
  regex on the URL.
\<close>

definition infer_ext :: "string \<Rightarrow> string option \<Rightarrow> string" where
  "infer_ext url content_type =
     (let from_url = (case re_search url of Some g \<Rightarrow> ''.'' @ lower g | None \<Rightarrow> ''.jpg'')
      in case content_type of
           None \<Rightarrow> from_url
         | Some c \<Rightarrow>
             if c = [] then from_url
             else let ct = lower c
                  in if contains ''png'' ct then ''.png''
                     else if contains ''webp'' ct then ''.webp''
                     else if contains ''jpeg'' ct \<or> contains ''jpg'' ct then ''.jpg''
                     else from_url)"

text \<open>The function of the same name in download-images/script.py, translated on its own.\<close>

definition infer_ext_script :: "string \<Rightarrow> string option \<Rightarrow> string" where
  "infer_ext_script url content_type =
     (case (case content_type of
              None \<Rightarrow> None
            | Some c \<Rightarrow>
                if c = [] then None
                else if contains ''png'' (lower c) then Some ''.png''
                else if contains ''webp'' (lower c) then Some ''.webp''
                else if contains ''jpeg'' (lower c) \<or> contains ''jpg'' (lower c) then Some ''.jpg''
                else None) of
        Some e \<Rightarrow> e
      | None \<Rightarrow> (case re_search url of None \<Rightarrow> ''.jpg'' | Some g \<Rightarrow> CHR ''.'' # lower g))"

section \<open>Deduplication while preserving order\<close>

text \<open>
  The loop \<open>for u in probe: if u not in seen: seen.add(u); ordered.append(u)\<close> of
  \<open>fetch_best_landscape_any\<close>, which \<open>fetch_landscape_paramount\<close> has word for word:
  the state is the set \<open>seen\<close> and the list \<open>ordered\<close>.
\<close>

fun dedup_loop :: "string list \<Rightarrow> string set \<Rightarrow> string list \<Rightarrow> string list" where
  "dedup_loop [] seen ordered = ordered"
| "dedup_loop (u # us) seen ordered =
     (if u \<notin> seen then dedup_loop us (insert u seen) (ordered @ [u])
      else dedup_loop us seen ordered)"

definition dedup :: "string list \<Rightarrow> string list" where
  "dedup probe = dedup_loop probe {} []"

text \<open>
  The aggregation step: the outputs of the adapters that were queried are appended to
  \<open>probe\<close> in priority order (\<open>probe.extend\<close>), then deduplicated.
\<close>

definition aggregate :: "string list list \<Rightarrow> string list" where
  "aggregate outs = dedup (concat outs)"

section \<open>Collecting candidates from the source adapters\<close>

text \<open>
  The five adapters of \<open>fetch_best_landscape_any\<close>, in the order the function calls them:
  \<open>try_movie_databases\<close>, \<open>try_free_image_apis\<close>, \<open>google_image_search_any\<close>,
  \<open>ddg_image_search_any\<close>, \<open>bing_image_search_any\<close>. An adapter is a network call; the
  model takes \<open>out s\<close>, the list adapter \<open>s\<close> returns for the title when it is called,
  and returns the adapters that were called, in call order, with the list \<open>probe\<close>.
  The guards test \<open>len(probe)\<close>, the length of the list before deduplication.
\<close>

datatype source = MovieDatabases | FreeImageApis | Google | DuckDuckGo | Bing

definition query_if_below :: "nat \<Rightarrow> source \<Rightarrow> (source \<Rightarrow> string list)
    \<Rightarrow> source list \<times> string list \<Rightarrow> source list \<times> string list" where
  "query_if_below limit s out acc =
     (case acc of (queried, probe) \<Rightarrow>
        if length probe < limit then (queried @ [s], probe @ out s) else (queried, probe))"

definition collect_candidates :: "(source \<Rightarrow> string list) \<Rightarrow> source list \<times> string list" where
  "collect_candidates out =
     query_if_below 40 Bing out
       (query_if_below 30 DuckDuckGo out
         (query_if_below 20 Google out
           (query_if_below 10 FreeImageApis out
             ([MovieDatabases], out MovieDatabases))))"

text \<open>Vocabulary for stating the order and the thresholds.\<close>

fun priority :: "source \<Rightarrow> nat" where
  "priority MovieDatabases = 0"
| "priority FreeImageApis = 1"
| "priority Google = 2"
| "priority DuckDuckGo = 3"
| "priority Bing = 4"

fun threshold :: "source \<Rightarrow> nat" where
  "threshold MovieDatabases = 0"
| "threshold FreeImageApis = 10"
| "threshold Google = 20"
| "threshold DuckDuckGo = 30"
| "threshold Bing = 40"

text \<open>
  \<open>accumulated out queried s\<close>: the URLs contributed by the adapters that were called
  and rank above \<open>s\<close>, duplicates included.
\<close>

definition accumulated :: "(source \<Rightarrow> string list) \<Rightarrow> source list \<Rightarrow> source \<Rightarrow> string list" where
  "accumulated out queried s = concat (map out (filter (\<lambda>t. priority t < priority s) queried))"

section \<open>The ranking loop of \<open>fetch_best_landscape_any\<close>\<close>

text \<open>
  \<open>fetch_image_and_dims url\<close> returns \<open>(data, w, h, ct)\<close> or raises (a network error, a
  bad status, a payload PIL cannot open); the loop catches every \<open>Exception\<close> of that call,
  so the call is a function into \<open>option\<close>, \<open>None\<close> for a raise. Each URL of \<open>ordered\<close> is
  fetched at most once in a run. \<open>score_landscape data w h poster_lab\<close> is floating-point
  code over the decoded pixels; the loop only compares its results, so the score is a
  parameter with values in an ordered field. The ratio \<open>w / h\<close> is compared with 1.2 as
  an exact quotient: rounding to double is monotone, so the float comparison agrees with
  the exact one unless \<open>w / h\<close> lies within an ulp of 6/5, which needs a height beyond
  \<open>10^15\<close>. \<open>w / h\<close> stands outside the \<open>try\<close> block: a height of zero raises
  \<open>ZeroDivisionError\<close> out of the function.
\<close>

datatype py_error = ZeroDivisionError

type_synonym bytes = string

type_synonym image = "bytes \<times> int \<times> int \<times> string"

type_synonym candidate = "real \<times> bytes \<times> string"

record scan_state =
  best :: "candidate option"
  checked :: nat
  valid_candidates :: nat

definition init_state :: scan_state where
  "init_state = \<lparr>best = None, checked = 0, valid_candidates = 0\<rparr>"

datatype ending = Exhausted | EarlyExit | SafetyCap

datatype flow = Next | Stop ending

text \<open>\<open>if best is None or score < best[0]: best = (score, data, ext)\<close>\<close>

definition improve :: "candidate option \<Rightarrow> candidate \<Rightarrow> candidate option" where
  "improve b c = (case b of None \<Rightarrow> Some c | Some old \<Rightarrow> if fst c < fst old then Some c else Some old)"

text \<open>\<open>best and best[0] < 0.3 and valid_candidates >= 2\<close>\<close>

definition good_enough :: "scan_state \<Rightarrow> bool" where
  "good_enough st = (case best st of None \<Rightarrow> False | Some b \<Rightarrow> fst b < 0.3 \<and> 2 \<le> valid_candidates st)"

text \<open>One pass through the body of the \<open>for\<close> loop, from the state before to the state after.\<close>

definition scan_body :: "(string \<Rightarrow> image option) \<Rightarrow> (bytes \<Rightarrow> int \<Rightarrow> int \<Rightarrow> real) \<Rightarrow> int
    \<Rightarrow> scan_state \<Rightarrow> string \<Rightarrow> py_error + flow \<times> scan_state" where
  "scan_body fetch_image_and_dims score_landscape min_width st url =
     (case fetch_image_and_dims url of
        None \<Rightarrow> Inr (Next, st)
      | Some (data, w, h, ct) \<Rightarrow>
          let st1 = st\<lparr>checked := checked st + 1\<rparr>
          in if w < min_width then Inr (Next, st1)
             else if h = 0 then Inl ZeroDivisionError
             else if real_of_int w / real_of_int h < 1.2 then Inr (Next, st1)
             else
               let st2 = st1\<lparr>valid_candidates := valid_candidates st1 + 1\<rparr>;
                   score = score_landscape data w h;
                   st3 = st2\<lparr>best := improve (best st2) (score, data, infer_ext url (Some ct))\<rparr>
               in if good_enough st3 then Inr (Stop EarlyExit, st3)
                  else if 100 \<le> checked st3 then Inr (Stop SafetyCap, st3)
                  else Inr (Next, st3))"

text \<open>
  The \<open>for\<close> loop over \<open>ordered\<close>. Besides the final state it returns how the loop ended
  and the URLs that were passed to \<open>fetch_image_and_dims\<close>, in order.
\<close>

fun scan_loop :: "(scan_state \<Rightarrow> string \<Rightarrow> py_error + flow \<times> scan_state) \<Rightarrow> string list \<Rightarrow> scan_state
    \<Rightarrow> py_error + ending \<times> scan_state \<times> string list" where
  "scan_loop body [] st = Inr (Exhausted, st, [])"
| "scan_loop body (url # urls) st =
     (case body st url of
        Inl e \<Rightarrow> Inl e
      | Inr (Stop e, st') \<Rightarrow> Inr (e, st', [url])
      | Inr (Next, st') \<Rightarrow>
          (case scan_loop body urls st' of
             Inl e \<Rightarrow> Inl e
           | Inr (e, st'', probed) \<Rightarrow> Inr (e, st'', url # probed)))"

definition scan :: "(string \<Rightarrow> image option) \<Rightarrow> (bytes \<Rightarrow> int \<Rightarrow> int \<Rightarrow> real) \<Rightarrow> int \<Rightarrow> string list
    \<Rightarrow> py_error + ending \<times> scan_state \<times> string list" where
  "scan fetch_image_and_dims score_landscape min_width ordered =
     scan_loop (scan_body fetch_image_and_dims score_landscape min_width) ordered init_state"

text \<open>The part of \<open>fetch_best_landscape_any\<close> after deduplication: the value returned.\<close>

definition rank_candidates :: "(string \<Rightarrow> image option) \<Rightarrow> (bytes \<Rightarrow> int \<Rightarrow> int \<Rightarrow> real) \<Rightarrow> int
    \<Rightarrow> string list \<Rightarrow> py_error + bytes option \<times> string option" where
  "rank_candidates fetch_image_and_dims score_landscape min_width ordered =
     (if length ordered = 0 then Inr (None, None)
      else case scan fetch_image_and_dims score_landscape min_width ordered of
             Inl e \<Rightarrow> Inl e
           | Inr (e, st, probed) \<Rightarrow>
               (case best st of
                  Some (score, data, ext) \<Rightarrow> Inr (Some data, Some ext)
                | None \<Rightarrow> Inr (None, None)))"

definition fetch_best_landscape_any :: "(source \<Rightarrow> string list) \<Rightarrow> (string \<Rightarrow> image option)
    \<Rightarrow> (bytes \<Rightarrow> int \<Rightarrow> int \<Rightarrow> real) \<Rightarrow> int \<Rightarrow> py_error + bytes option \<times> string option" where
  "fetch_best_landscape_any out fetch_image_and_dims score_landscape min_width =
     rank_candidates fetch_image_and_dims score_landscape min_width
       (dedup (snd (collect_candidates out)))"

text \<open>
  Vocabulary for the claims. \<open>qualifies\<close>: the image passes the two filters of the loop.
  \<open>valid_scored\<close>: the triples \<open>(score, data, ext)\<close> of the listed URLs that download
  and pass the filters, in list order. \<open>rejected\<close>: the URL fails to download, or is too
  narrow, or has a ratio below the floor.
\<close>

definition qualifies :: "int \<Rightarrow> image \<Rightarrow> bool" where
  "qualifies min_width img =
     (case img of (data, w, h, ct) \<Rightarrow>
        min_width \<le> w \<and> h \<noteq> 0 \<and> 1.2 \<le> real_of_int w / real_of_int h)"

definition scored :: "(bytes \<Rightarrow> int \<Rightarrow> int \<Rightarrow> real) \<Rightarrow> string \<Rightarrow> image \<Rightarrow> candidate" where
  "scored score_landscape url img =
     (case img of (data, w, h, ct) \<Rightarrow> (score_landscape data w h, data, infer_ext url (Some ct)))"

fun valid_scored :: "(string \<Rightarrow> image option) \<Rightarrow> (bytes \<Rightarrow> int \<Rightarrow> int \<Rightarrow> real) \<Rightarrow> int \<Rightarrow> string list
    \<Rightarrow> candidate list" where
  "valid_scored fetch score_landscape min_width [] = []"
| "valid_scored fetch score_landscape min_width (url # urls) =
     (case fetch url of
        None \<Rightarrow> valid_scored fetch score_landscape min_width urls
      | Some img \<Rightarrow>
          if qualifies min_width img
          then scored score_landscape url img # valid_scored fetch score_landscape min_width urls
          else valid_scored fetch score_landscape min_width urls)"

definition rejected :: "(string \<Rightarrow> image option) \<Rightarrow> int \<Rightarrow> string \<Rightarrow> bool" where
  "rejected fetch min_width url =
     (case fetch url of
        None \<Rightarrow> True
      | Some (data, w, h, ct) \<Rightarrow> w < min_width \<or> (h \<noteq> 0 \<and> real_of_int w / real_of_int h < 1.2))"

text \<open>\<open>undetermined ct\<close>: no content-type branch of \<open>infer_ext\<close> returns.\<close>

definition undetermined :: "string option \<Rightarrow> bool" where
  "undetermined content_type =
     (case content_type of
        None \<Rightarrow> True
      | Some c \<Rightarrow> c = [] \<or> \<not> (contains ''png'' (lower c) \<or> contains ''webp'' (lower c)
                              \<or> contains ''jpeg'' (lower c) \<or> contains ''jpg'' (lower c)))"

text \<open>
  Two abbreviations for the accepting branch of \<open>scan_body\<close>: the state after a
  filter-passing candidate, and the decision taken on it. \<open>without_trace\<close> forgets the
  list of probed URLs.
\<close>

definition accept :: "scan_state \<Rightarrow> candidate \<Rightarrow> scan_state" where
  "accept st c = st\<lparr>checked := checked st + 1, valid_candidates := valid_candidates st + 1,
                    best := improve (best st) c\<rparr>"

definition verdict :: "scan_state \<Rightarrow> flow" where
  "verdict st = (if good_enough st then Stop EarlyExit else if 100 \<le> checked st then Stop SafetyCap else Next)"

definition without_trace :: "py_error + ending \<times> scan_state \<times> string list \<Rightarrow> py_error + ending \<times> scan_state" where
  "without_trace r = (case r of Inl e \<Rightarrow> Inl e | Inr (e, st, probed) \<Rightarrow> Inr (e, st))"

text \<open>
  \<open>observe\<close> keeps of a run what the caller can see and what the early exit reads:
  how the loop ended, the best candidate and the number of valid candidates.
\<close>

definition observe :: "py_error + ending \<times> scan_state \<times> string list
    \<Rightarrow> py_error + ending \<times> candidate option \<times> nat" where
  "observe r = (case r of Inl e \<Rightarrow> Inl e | Inr (e, st, probed) \<Rightarrow> Inr (e, best st, valid_candidates st))"

section \<open>Example inputs\<close>

text \<open>
  A stub of the network for the examples of the specification: URL \<open>a\<close>, \<open>b\<close>,
  \<open>c\<close> are three landscape images scored 5, 2 and 8; \<open>n\<close> is 500 pixels wide and
  scored -100; \<open>w\<close> is 2000 pixels wide and scored 0.5; \<open>g\<close> is scored 0.25; every
  other URL fails to download.
\<close>

definition demo_fetch :: "string \<Rightarrow> image option" where
  "demo_fetch u =
     (if u = ''a'' then Some (''A'', 1920, 1080, ''image/jpeg'')
      else if u = ''b'' then Some (''B'', 2560, 1440, ''image/png'')
      else if u = ''c'' then Some (''C'', 1920, 1080, '''')
      else if u = ''n'' then Some (''N'', 500, 281, ''image/jpeg'')
      else if u = ''w'' then Some (''W'', 2000, 1125, ''image/jpeg'')
      else if u = ''g'' then Some (''G'', 1920, 1080, ''image/webp'')
      else None)"

definition demo_score :: "bytes \<Rightarrow> int \<Rightarrow> int \<Rightarrow> real" where
  "demo_score d w h =
     (if d = ''A'' then 5 else if d = ''B'' then 2 else if d = ''C'' then 8
      else if d = ''N'' then - 100 else if d = ''G'' then 0.25 else 0.5)"

text \<open>
  A network where \<open>a\<close> and \<open>b\<close> are landscape images scored 5 and 2 and every other
  URL downloads as a 500 pixel wide image; \<open>narrow_urls\<close> are a hundred such URLs.
\<close>

definition cap_fetch :: "string \<Rightarrow> image option" where
  "cap_fetch u =
     (if u = ''a'' then Some (''A'', 1920, 1080, ''image/jpeg'')
      else if u = ''b'' then Some (''B'', 1920, 1080, ''image/jpeg'')
      else Some (''N'', 500, 281, ''image/jpeg''))"

definition cap_score :: "bytes \<Rightarrow> int \<Rightarrow> int \<Rightarrow> real" where
  "cap_score d w h = (if d = ''B'' then 2 else 5)"

definition narrow_urls :: "string list" where
  "narrow_urls = map (\<lambda>n. replicate (Suc n) CHR ''n'') [0..<100]"

text \<open>A network that is down, and 101 distinct URLs.\<close>

definition no_fetch :: "string \<Rightarrow> image option" where
  "no_fetch u = None"

definition dead_urls :: "string list" where
  "dead_urls = map (\<lambda>n. replicate (Suc n) CHR ''u'') [0..<101]"

text \<open>
  Adapter outputs where the two search engines return the same twenty URLs, and adapter
  outputs with four URLs in all.
\<close>

definition engine_urls :: "string list" where
  "engine_urls = map (\<lambda>c. [CHR ''g'', c]) ''abcdefghijklmnopqrst''"

definition overlap_out :: "source \<Rightarrow> string list" where
  "overlap_out s =
     (case s of
        MovieDatabases \<Rightarrow> [''m1'', ''m2'', ''m3'']
      | FreeImageApis \<Rightarrow> []
      | Google \<Rightarrow> engine_urls
      | DuckDuckGo \<Rightarrow> engine_urls
      | Bing \<Rightarrow> [''b1''])"

definition few_out :: "source \<Rightarrow> string list" where
  "few_out s = (case s of MovieDatabases \<Rightarrow> [''m1'', ''m2'', ''m3''] | Bing \<Rightarrow> [''b1''] | _ \<Rightarrow> [])"

section \<open>Deduplication keeps the first occurrence\<close>

lemma dedup_loop_acc: "dedup_loop us seen acc = acc @ dedup_loop us seen []"
proof (induction us arbitrary: seen acc)
  case Nil
  show ?case by simp
next
  case (Cons u us)
  have a: "dedup_loop us (insert u seen) (acc @ [u]) = (acc @ [u]) @ dedup_loop us (insert u seen) []"
    by (rule Cons.IH)
  have b: "dedup_loop us (insert u seen) [u] = [u] @ dedup_loop us (insert u seen) []"
    using Cons.IH [of "insert u seen" "[u]"] by simp
  have c: "dedup_loop us seen acc = acc @ dedup_loop us seen []"
    by (rule Cons.IH)
  show ?case using a b c by simp
qed

lemma dedup_loop_seen:
  "dedup_loop us (seen \<union> S) [] = filter (\<lambda>u. u \<notin> S) (dedup_loop us seen [])"
proof (induction us arbitrary: seen)
  case Nil
  show ?case by simp
next
  case (Cons u us)
  have step: "dedup_loop us (insert u seen) [u] = u # dedup_loop us (insert u seen) []"
    "dedup_loop us (insert u (seen \<union> S)) [u] = u # dedup_loop us (insert u (seen \<union> S)) []"
    using dedup_loop_acc [of us _ "[u]"] by simp_all
  have ih1: "dedup_loop us (insert u seen \<union> S) [] = filter (\<lambda>u. u \<notin> S) (dedup_loop us (insert u seen) [])"
    by (rule Cons.IH)
  have ih2: "dedup_loop us (seen \<union> S) [] = filter (\<lambda>u. u \<notin> S) (dedup_loop us seen [])"
    by (rule Cons.IH)
  show ?case
  proof (cases "u \<in> seen")
    case True
    then show ?thesis using ih2 by simp
  next
    case False
    show ?thesis
    proof (cases "u \<in> S")
      case True
      then have "insert u seen \<union> S = seen \<union> S" by auto
      with ih1 True False show ?thesis by (simp add: step)
    next
      case False
      with ih1 \<open>u \<notin> seen\<close> show ?thesis by (simp add: step)
    qed
  qed
qed

lemma dedup_Nil: "dedup [] = []"
  by (simp add: dedup_def)

lemma dedup_Cons: "dedup (u # us) = u # filter (\<lambda>v. v \<noteq> u) (dedup us)"
proof -
  have "dedup (u # us) = u # dedup_loop us ({} \<union> {u}) []"
    using dedup_loop_acc [of us "{u}" "[u]"] by (simp add: dedup_def)
  also have "dedup_loop us ({} \<union> {u}) [] = filter (\<lambda>v. v \<notin> {u}) (dedup_loop us {} [])"
    by (rule dedup_loop_seen)
  finally show ?thesis by (simp add: dedup_def)
qed

lemma set_dedup: "set (dedup us) = set us"
  by (induction us) (auto simp: dedup_Nil dedup_Cons)

lemma distinct_dedup: "distinct (dedup us)"
  by (induction us) (auto simp: dedup_Nil dedup_Cons)

lemma dedup_append: "dedup (xs @ ys) = dedup xs @ filter (\<lambda>u. u \<notin> set xs) (dedup ys)"
proof (induction xs)
  case Nil
  show ?case by (simp add: dedup_Nil)
next
  case (Cons x xs)
  have "filter (\<lambda>v. v \<noteq> x) (filter (\<lambda>u. u \<notin> set xs) (dedup ys))
        = filter (\<lambda>u. u \<notin> set (x # xs)) (dedup ys)"
    by (auto intro: filter_cong)
  with Cons show ?case by (simp add: dedup_Cons)
qed

text \<open>
  C7. For every list of adapter outputs the aggregation step returns their concatenation
  in priority order with later duplicates dropped in place: the result has no duplicates,
  holds exactly the URLs of the input, a URL met again under a later adapter is filtered
  out of that adapter's contribution while the earlier ones keep their places, and the
  outputs \<open>[["u1","u2"], ["u2","u3"]]\<close> aggregate to \<open>["u1","u2","u3"]\<close>.
\<close>

theorem aggregate_first_seen:
  "distinct (aggregate outs)
   \<and> set (aggregate outs) = set (concat outs)
   \<and> aggregate [] = []
   \<and> aggregate (out # outs) = dedup out @ filter (\<lambda>u. u \<notin> set out) (aggregate outs)
   \<and> dedup (u # us) = u # filter (\<lambda>v. v \<noteq> u) (dedup us)
   \<and> aggregate [[''u1'', ''u2''], [''u2'', ''u3'']] = [''u1'', ''u2'', ''u3'']"
proof -
  have "aggregate [[''u1'', ''u2''], [''u2'', ''u3'']] = [''u1'', ''u2'', ''u3'']"
    by (simp add: aggregate_def dedup_def)
  then show ?thesis
    by (simp add: aggregate_def distinct_dedup set_dedup dedup_append dedup_Nil dedup_Cons)
qed


section \<open>Extension inference\<close>

lemma lower_char_dot: "lower_char CHR ''.'' = CHR ''.''"
  by (simp add: lower_char_def)

lemma length_lower: "length (lower s) = length s"
  by (simp add: lower_def)

lemma try_token_blocked:
  assumes q: "CHR ''?'' \<notin> set p" and d: "CHR ''.'' \<notin> set tok"
  shows "try_token tok (p @ CHR ''.'' # q) = None"
proof (cases "length p < length tok")
  case True
  then have "take (length tok) (p @ CHR ''.'' # q) = p @ CHR ''.'' # take (length tok - length p - 1) q"
    by (cases "length tok - length p") auto
  then have "CHR ''.'' \<in> set (lower (take (length tok) (p @ CHR ''.'' # q)))"
    by (simp add: lower_def lower_char_dot)
  with d show ?thesis by (auto simp: try_token_def)
next
  case False
  then have dr: "drop (length tok) (p @ CHR ''.'' # q) = drop (length tok) p @ CHR ''.'' # q"
    by simp
  show ?thesis
  proof (cases "drop (length tok) p")
    case Nil
    with dr show ?thesis by (simp add: try_token_def ext_follow_def)
  next
    case (Cons c cs)
    then have "c \<in> set p" by (metis in_set_dropD list.set_intros(1))
    with q have "c \<noteq> CHR ''?''" by auto
    with dr Cons show ?thesis by (simp add: try_token_def ext_follow_def)
  qed
qed

lemma match_ext_at_blocked:
  assumes "CHR ''?'' \<notin> set (c # p)"
  shows "match_ext_at (c # p @ CHR ''.'' # q) = None"
proof -
  from assms have "CHR ''?'' \<notin> set p" by simp
  then have "try_token ''jpeg'' (p @ CHR ''.'' # q) = None" "try_token ''jpg'' (p @ CHR ''.'' # q) = None"
    "try_token ''png'' (p @ CHR ''.'' # q) = None" "try_token ''webp'' (p @ CHR ''.'' # q) = None"
    by (simp_all add: try_token_blocked)
  then show ?thesis by (simp add: match_ext_at_def)
qed

lemma re_search_skip:
  "CHR ''?'' \<notin> set p \<Longrightarrow> re_search (p @ CHR ''.'' # q) = re_search (CHR ''.'' # q)"
proof (induction p)
  case Nil
  show ?case by simp
next
  case (Cons c p)
  then have "match_ext_at (c # p @ CHR ''.'' # q) = None"
    by (intro match_ext_at_blocked) simp
  with Cons show ?case by simp
qed

lemma try_token_self:
  "lower e = tok \<Longrightarrow> ext_follow rest \<Longrightarrow> try_token tok (e @ rest) = Some e"
  using length_lower [of e] by (auto simp: try_token_def)

lemma try_token_other:
  assumes e: "lower e = tok'" and ne: "take (length tok') tok \<noteq> take (length tok) tok'"
  shows "try_token tok (e @ rest) = None"
proof -
  have "lower (take (length tok) (e @ rest)) \<noteq> tok"
  proof
    assume a: "lower (take (length tok) (e @ rest)) = tok"
    have l: "length e = length tok'" using e length_lower [of e] by simp
    have t: "take (length e) (take (length tok) (e @ rest)) = take (length tok) e"
      by (cases "length e \<le> length tok") (simp_all add: min_def)
    have "take (length tok') tok = take (length e) (lower (take (length tok) (e @ rest)))"
      using a l by simp
    also have "\<dots> = lower (take (length e) (take (length tok) (e @ rest)))"
      by (simp only: lower_def take_map)
    also have "\<dots> = take (length tok) (lower e)"
      by (simp only: t lower_def take_map)
    also have "\<dots> = take (length tok) tok'"
      using e by simp
    finally show False using ne by simp
  qed
  then show ?thesis by (simp add: try_token_def)
qed

lemma match_ext_at_token:
  assumes e: "lower e \<in> {''jpg'', ''jpeg'', ''png'', ''webp''}" and f: "ext_follow rest"
  shows "match_ext_at (CHR ''.'' # e @ rest) = Some e"
proof -
  from e consider "lower e = ''jpeg''" | "lower e = ''jpg''" | "lower e = ''png''" | "lower e = ''webp''"
    by auto
  then show ?thesis
  proof cases
    case 1
    with f show ?thesis by (simp add: match_ext_at_def try_token_self)
  next
    case 2
    then have "try_token ''jpeg'' (e @ rest) = None"
      by (rule try_token_other) simp
    with 2 f show ?thesis by (simp add: match_ext_at_def try_token_self)
  next
    case 3
    then have "try_token ''jpeg'' (e @ rest) = None" "try_token ''jpg'' (e @ rest) = None"
      by (auto intro: try_token_other)
    with 3 f show ?thesis by (simp add: match_ext_at_def try_token_self)
  next
    case 4
    then have "try_token ''jpeg'' (e @ rest) = None" "try_token ''jpg'' (e @ rest) = None"
      "try_token ''png'' (e @ rest) = None"
      by (auto intro: try_token_other)
    with 4 f show ?thesis by (simp add: match_ext_at_def try_token_self)
  qed
qed

lemma try_token_Some: "try_token tok r = Some g \<Longrightarrow> lower g = tok"
  by (auto simp: try_token_def split: if_splits)

lemma re_search_trailing:
  assumes "CHR ''?'' \<notin> set pre" "lower e \<in> {''jpg'', ''jpeg'', ''png'', ''webp''}" "ext_follow rest"
  shows "re_search (pre @ ''.'' @ e @ rest) = Some e"
  using assms by (simp add: re_search_skip match_ext_at_token)

lemma match_ext_at_range:
  "match_ext_at s = Some g \<Longrightarrow> lower g \<in> {''jpg'', ''jpeg'', ''png'', ''webp''}"
  by (auto simp: match_ext_at_def split: list.splits if_splits option.splits dest: try_token_Some)

lemma re_search_range:
  "re_search s = Some g \<Longrightarrow> lower g \<in> {''jpg'', ''jpeg'', ''png'', ''webp''}"
  by (induction s) (auto split: option.splits dest: match_ext_at_range)

lemma infer_ext_undetermined:
  "undetermined ct \<Longrightarrow>
   infer_ext url ct = (case re_search url of Some g \<Rightarrow> ''.'' @ lower g | None \<Rightarrow> ''.jpg'')"
  by (auto simp: undetermined_def infer_ext_def Let_def split: option.splits)

lemma infer_ext_range: "infer_ext url ct \<in> {''.jpg'', ''.jpeg'', ''.png'', ''.webp''}"
proof (cases "re_search url")
  case None
  then show ?thesis by (simp add: infer_ext_def Let_def split: option.splits)
next
  case (Some g)
  from re_search_range [OF Some] Some show ?thesis
    by (auto simp: infer_ext_def Let_def split: option.splits)
qed


text \<open>
  C8 as stated promises a result among \<open>.jpg\<close>, \<open>.png\<close>, \<open>.webp\<close>; a URL ending in
  \<open>.jpeg\<close> with no usable content type gets \<open>.jpeg\<close>.
\<close>

theorem infer_ext_jpeg_counterexample:
  "infer_ext ''http://h/a.jpeg'' None = ''.jpeg''
   \<and> ''.jpeg'' \<notin> {''.jpg'', ''.png'', ''.webp''}"
  by (simp add: infer_ext_def match_ext_at_def try_token_def lower_def lower_char_def ext_follow_def)

text \<open>
  C8, amended. The result is always one of \<open>.jpg\<close>, \<open>.jpeg\<close>, \<open>.png\<close>, \<open>.webp\<close>.
  A non-empty content type that mentions png gives \<open>.png\<close>, else one that mentions webp
  gives \<open>.webp\<close>, else one that mentions jpeg or jpg gives \<open>.jpg\<close>. When the content
  type decides nothing and the URL, before any question mark, ends in a dot and one of
  jpg, jpeg, png, webp in any case (followed by the end of the URL, a question mark or a
  final newline), the result is the dot and that token in lower case, so \<open>.jpeg\<close> stays
  \<open>.jpeg\<close>. When the content type decides nothing and the pattern occurs nowhere in the
  URL, the result is \<open>.jpg\<close>.
\<close>

theorem infer_ext_spec:
  "infer_ext url ct \<in> {''.jpg'', ''.jpeg'', ''.png'', ''.webp''}
   \<and> (c1 \<noteq> [] \<and> contains ''png'' (lower c1) \<longrightarrow> infer_ext url (Some c1) = ''.png'')
   \<and> (\<not> contains ''png'' (lower c2) \<and> contains ''webp'' (lower c2) \<longrightarrow> infer_ext url (Some c2) = ''.webp'')
   \<and> (\<not> contains ''png'' (lower c3) \<and> \<not> contains ''webp'' (lower c3)
        \<and> (contains ''jpeg'' (lower c3) \<or> contains ''jpg'' (lower c3)) \<longrightarrow> infer_ext url (Some c3) = ''.jpg'')
   \<and> (undetermined ct \<and> CHR ''?'' \<notin> set pre \<and> lower e \<in> {''jpg'', ''jpeg'', ''png'', ''webp''}
        \<and> ext_follow rest \<longrightarrow> infer_ext (pre @ ''.'' @ e @ rest) ct = ''.'' @ lower e)
   \<and> (undetermined ct \<and> re_search url = None \<longrightarrow> infer_ext url ct = ''.jpg'')"
proof -
  have 1: "infer_ext url ct \<in> {''.jpg'', ''.jpeg'', ''.png'', ''.webp''}"
    by (rule infer_ext_range)
  have 2: "c1 \<noteq> [] \<and> contains ''png'' (lower c1) \<longrightarrow> infer_ext url (Some c1) = ''.png''"
    by (simp add: infer_ext_def Let_def)
  have ne: "contains ''webp'' (lower c) \<or> contains ''jpeg'' (lower c) \<or> contains ''jpg'' (lower c) \<Longrightarrow> c \<noteq> []" for c
    by (auto simp: lower_def)
  have 3: "\<not> contains ''png'' (lower c2) \<and> contains ''webp'' (lower c2) \<longrightarrow> infer_ext url (Some c2) = ''.webp''"
    using ne [of c2] by (auto simp: infer_ext_def Let_def)
  have 4: "\<not> contains ''png'' (lower c3) \<and> \<not> contains ''webp'' (lower c3)
        \<and> (contains ''jpeg'' (lower c3) \<or> contains ''jpg'' (lower c3)) \<longrightarrow> infer_ext url (Some c3) = ''.jpg''"
    using ne [of c3] by (auto simp: infer_ext_def Let_def)
  have 5: "undetermined ct \<and> CHR ''?'' \<notin> set pre \<and> lower e \<in> {''jpg'', ''jpeg'', ''png'', ''webp''}
        \<and> ext_follow rest \<longrightarrow> infer_ext (pre @ ''.'' @ e @ rest) ct = ''.'' @ lower e"
    using re_search_trailing [of pre e rest] by (simp add: infer_ext_undetermined)
  have 6: "undetermined ct \<and> re_search url = None \<longrightarrow> infer_ext url ct = ''.jpg''"
    by (simp add: infer_ext_undetermined)
  from 1 2 3 4 5 6 show ?thesis by blast
qed

theorem infer_ext_spec_witness:
  "''image/PNG'' \<noteq> [] \<and> contains ''png'' (lower ''image/PNG'')
   \<and> infer_ext ''http://h/b'' (Some ''image/PNG'') = ''.png''
   \<and> \<not> contains ''png'' (lower ''image/webp'') \<and> contains ''webp'' (lower ''image/webp'')
   \<and> infer_ext ''http://h/b'' (Some ''image/webp'') = ''.webp''
   \<and> \<not> contains ''png'' (lower ''image/jpeg'') \<and> \<not> contains ''webp'' (lower ''image/jpeg'')
   \<and> contains ''jpeg'' (lower ''image/jpeg'')
   \<and> infer_ext ''http://h/b'' (Some ''image/jpeg'') = ''.jpg''
   \<and> undetermined (Some ''text/html'')
   \<and> CHR ''?'' \<notin> set ''http://h/a''
   \<and> lower ''JPEG'' \<in> {''jpg'', ''jpeg'', ''png'', ''webp''}
   \<and> ext_follow ''?x=1''
   \<and> infer_ext (''http://h/a'' @ ''.'' @ ''JPEG'' @ ''?x=1'') (Some ''text/html'') = ''.'' @ lower ''JPEG''
   \<and> re_search ''http://h/b'' = None
   \<and> infer_ext ''http://h/b'' (Some ''text/html'') = ''.jpg''"
proof -
  have a: "undetermined (Some ''text/html'') \<and> CHR ''?'' \<notin> set ''http://h/a''
      \<and> lower ''JPEG'' \<in> {''jpg'', ''jpeg'', ''png'', ''webp''} \<and> ext_follow ''?x=1''"
    by code_simp
  have b: "''image/PNG'' \<noteq> [] \<and> contains ''png'' (lower ''image/PNG'')"
    by code_simp
  have c: "\<not> contains ''png'' (lower ''image/webp'') \<and> contains ''webp'' (lower ''image/webp'')"
    by code_simp
  have d: "\<not> contains ''png'' (lower ''image/jpeg'') \<and> \<not> contains ''webp'' (lower ''image/jpeg'')
      \<and> contains ''jpeg'' (lower ''image/jpeg'')"
    by code_simp
  have n: "re_search ''http://h/b'' = None"
    by code_simp
  from a b c d n
    infer_ext_spec [of "''http://h/b''" "Some ''text/html''" "''image/PNG''" "''image/webp''"
      "''image/jpeg''" "''http://h/a''" "''JPEG''" "''?x=1''"]
  show ?thesis by blast
qed

text \<open>
  C10. \<open>infer_ext\<close> of posters.py and \<open>infer_ext\<close> of download-images/script.py return
  the same extension for every URL and every content type.
\<close>

theorem infer_ext_variants_agree: "infer_ext_script url content_type = infer_ext url content_type"
  by (simp add: infer_ext_script_def infer_ext_def Let_def split: option.splits)

section \<open>The loop body, case by case\<close>

lemma body_fail:
  "fetch url = None \<Longrightarrow> scan_body fetch score mw st url = Inr (Next, st)"
  by (simp add: scan_body_def)

lemma body_rejected:
  "fetch url = Some (data, w, h, ct) \<Longrightarrow> w < mw \<or> (h \<noteq> 0 \<and> real_of_int w / real_of_int h < 1.2) \<Longrightarrow>
   scan_body fetch score mw st url = Inr (Next, st\<lparr>checked := checked st + 1\<rparr>)"
  by (auto simp: scan_body_def Let_def)

lemma body_zero:
  "fetch url = Some (data, w, h, ct) \<Longrightarrow> mw \<le> w \<Longrightarrow> h = 0 \<Longrightarrow>
   scan_body fetch score mw st url = Inl ZeroDivisionError"
  by (simp add: scan_body_def Let_def)

lemma body_valid:
  "fetch url = Some img \<Longrightarrow> qualifies mw img \<Longrightarrow>
   scan_body fetch score mw st url = Inr (verdict (accept st (scored score url img)), accept st (scored score url img))"
  by (cases img) (auto simp: scan_body_def Let_def qualifies_def scored_def accept_def verdict_def)

lemma image_cases:
  obtains (fail) "fetch url = None"
  | (narrow) data w h ct where "fetch url = Some (data, w, h, ct)" "w < mw \<or> (h \<noteq> 0 \<and> real_of_int w / real_of_int h < 1.2)"
  | (zero) data w ct where "fetch url = Some (data, w, 0, ct)" "mw \<le> w"
  | (valid) img where "fetch url = Some img" "qualifies mw img"
proof (cases "fetch url")
  case None
  then show ?thesis by (rule fail)
next
  case (Some img)
  obtain data w h ct where img: "img = (data, w, h, ct)" by (cases img) auto
  show ?thesis
  proof (cases "w < mw \<or> (h \<noteq> 0 \<and> real_of_int w / real_of_int h < 1.2)")
    case True
    with Some img show ?thesis by (intro narrow) auto
  next
    case False
    show ?thesis
    proof (cases "h = 0")
      case True
      with False Some img show ?thesis by (intro zero) auto
    next
      case h: False
      with False Some img show ?thesis by (intro valid) (auto simp: qualifies_def)
    qed
  qed
qed

lemma body_cases:
  assumes "scan_body fetch score mw st url = Inr (fl, st')"
  obtains (failed) "fetch url = None" "fl = Next" "st' = st"
  | (filtered) "rejected fetch mw url" "fetch url \<noteq> None" "fl = Next" "st' = st\<lparr>checked := checked st + 1\<rparr>"
  | (valid) img where "fetch url = Some img" "qualifies mw img"
      "st' = accept st (scored score url img)" "verdict st' = fl"
proof (cases rule: image_cases [where fetch = fetch and url = url and mw = mw])
  case fail
  with assms show ?thesis by (intro failed) (simp_all add: body_fail)
next
  case (narrow data w h ct)
  with assms body_rejected [where fetch = fetch and url = url and score = score and st = st, OF narrow] show ?thesis
    by (intro filtered) (auto simp: rejected_def)
next
  case (zero data w ct)
  with assms body_zero [where fetch = fetch and url = url and score = score and st = st, OF zero(1) zero(2)] show ?thesis by simp
next
  case (valid img)
  with assms body_valid [where fetch = fetch and url = url and score = score and st = st, OF valid] show ?thesis
    by (intro that(3) [of img]) auto
qed

lemma rejected_body:
  "rejected fetch mw u \<Longrightarrow> fetch u \<noteq> None \<Longrightarrow>
   scan_body fetch score mw st u = Inr (Next, st\<lparr>checked := checked st + 1\<rparr>)"
  by (auto simp: rejected_def scan_body_def Let_def split: option.splits)

lemma loop_Cons_cases:
  assumes "scan_loop body (u # us) st = Inr (e, st', p)"
  obtains (stop) "body st u = Inr (Stop e, st')" "p = [u]"
  | (continue) st1 p1 where "body st u = Inr (Next, st1)" "scan_loop body us st1 = Inr (e, st', p1)" "p = u # p1"
  using assms by (auto split: sum.splits prod.splits flow.splits)

lemma accept_simps:
  "best (accept st c) = improve (best st) c"
  "checked (accept st c) = checked st + 1"
  "valid_candidates (accept st c) = valid_candidates st + 1"
  by (simp_all add: accept_def)

lemma verdict_Next: "verdict st = Next \<longleftrightarrow> \<not> good_enough st \<and> checked st < 100"
  by (auto simp: verdict_def)

lemma verdict_Stop:
  "verdict st = Stop e \<longleftrightarrow> (good_enough st \<and> e = EarlyExit) \<or> (\<not> good_enough st \<and> 100 \<le> checked st \<and> e = SafetyCap)"
  by (auto simp: verdict_def)

lemma good_enough_checked: "good_enough (st\<lparr>checked := n\<rparr>) = good_enough st"
  by (simp add: good_enough_def split: option.splits)

lemma improve_Some: "improve (Some a) c = (if fst c < fst a then Some c else Some a)"
  by (simp add: improve_def)

lemma improve_None: "improve None c = Some c"
  by (simp add: improve_def)

section \<open>Runs of the loop\<close>

lemma loop_prefix:
  "scan_loop body us st = Inr (e, st', p) \<Longrightarrow> p = take (length p) us"
proof (induction us arbitrary: st p)
  case Nil
  then show ?case by simp
next
  case (Cons u us)
  from Cons.prems show ?case
  proof (cases rule: loop_Cons_cases)
    case stop
    then show ?thesis by simp
  next
    case (continue st1 p1)
    with Cons.IH [OF continue(2)] show ?thesis by simp
  qed
qed

lemma loop_stop_append:
  "scan_loop body pre st = Inr (e, st', p) \<Longrightarrow> e \<noteq> Exhausted \<Longrightarrow>
   scan_loop body (pre @ rest) st = Inr (e, st', p)"
proof (induction pre arbitrary: st p)
  case Nil
  then show ?case by simp
next
  case (Cons u us)
  from Cons.prems(1) show ?case
  proof (cases rule: loop_Cons_cases)
    case stop
    then show ?thesis by simp
  next
    case (continue st1 p1)
    with Cons.IH [OF continue(2) Cons.prems(2)] show ?thesis by simp
  qed
qed

lemma loop_exhausted_append:
  "scan_loop (scan_body fetch score mw) xs st = Inr (Exhausted, st1, p) \<Longrightarrow>
   scan_loop (scan_body fetch score mw) (xs @ ys) st =
     (case scan_loop (scan_body fetch score mw) ys st1 of
        Inl e \<Rightarrow> Inl e | Inr (e, st2, q) \<Rightarrow> Inr (e, st2, xs @ q))"
proof (induction xs arbitrary: st p)
  case Nil
  then show ?case by (simp split: sum.splits)
next
  case (Cons u us)
  from Cons.prems show ?case
  proof (cases rule: loop_Cons_cases)
    case stop
    from stop(1) have False
      by (cases rule: body_cases) (auto simp: verdict_Stop)
    then show ?thesis ..
  next
    case (continue st1' p1)
    with Cons.IH [OF continue(2)] show ?thesis
      by (simp split: sum.splits prod.splits)
  qed
qed

lemma failed_run:
  "\<forall>u\<in>set us. fetch u = None \<Longrightarrow>
   scan_loop (scan_body fetch score mw) us st = Inr (Exhausted, st, us)"
  by (induction us) (simp_all add: body_fail)

lemma filtered_run:
  "\<forall>u\<in>set us. rejected fetch mw u \<and> fetch u \<noteq> None \<Longrightarrow>
   scan_loop (scan_body fetch score mw) us st = Inr (Exhausted, st\<lparr>checked := checked st + length us\<rparr>, us)"
proof (induction us arbitrary: st)
  case Nil
  show ?case by simp
next
  case (Cons u us)
  then have b: "scan_body fetch score mw st u = Inr (Next, st\<lparr>checked := checked st + 1\<rparr>)"
    by (intro rejected_body) auto
  from Cons have "scan_loop (scan_body fetch score mw) us (st\<lparr>checked := checked st + 1\<rparr>)
      = Inr (Exhausted, st\<lparr>checked := checked st + 1\<rparr>\<lparr>checked := checked (st\<lparr>checked := checked st + 1\<rparr>) + length us\<rparr>, us)"
    by (intro Cons.IH) auto
  with b show ?case by simp
qed

lemma valid_scored_rejected:
  "rejected fetch mw u \<Longrightarrow> valid_scored fetch score mw (u # us) = valid_scored fetch score mw us"
  by (auto simp: rejected_def qualifies_def split: option.splits)

lemma valid_scored_append:
  "valid_scored fetch score mw (xs @ ys) = valid_scored fetch score mw xs @ valid_scored fetch score mw ys"
  by (induction xs) (auto split: option.splits)

lemma valid_scored_all_rejected:
  "\<forall>u\<in>set us. rejected fetch mw u \<Longrightarrow> valid_scored fetch score mw us = []"
  by (induction us) (simp_all add: valid_scored_rejected del: valid_scored.simps(2))

lemma valid_scored_mem:
  "c \<in> set (valid_scored fetch score mw us) \<Longrightarrow>
   \<exists>u\<in>set us. \<exists>img. fetch u = Some img \<and> qualifies mw img \<and> c = scored score u img"
  by (induction us) (auto split: option.splits if_splits)

lemma exhausted_run:
  assumes "scan_loop (scan_body fetch score mw) us st = Inr (Exhausted, st', p)"
  shows "best st' = foldl improve (best st) (valid_scored fetch score mw us) \<and> p = us"
  using assms
proof (induction us arbitrary: st p)
  case Nil
  then show ?case by simp
next
  case (Cons u us)
  from Cons.prems show ?case
  proof (cases rule: loop_Cons_cases)
    case stop
    then show ?thesis
      by (cases rule: body_cases) (auto simp: verdict_def split: if_splits)
  next
    case (continue st1 p1)
    from Cons.IH [OF continue(2)]
    have ih: "best st' = foldl improve (best st1) (valid_scored fetch score mw us)" "p1 = us"
      by simp_all
    from continue(1) show ?thesis
    proof (cases rule: body_cases)
      case failed
      with ih continue(3) show ?thesis by simp
    next
      case filtered
      with ih continue(3) show ?thesis by (simp add: valid_scored_rejected del: valid_scored.simps)
    next
      case (valid img)
      with ih continue(3) show ?thesis by (simp add: accept_simps)
    qed
  qed
qed

lemma loop_best_origin:
  assumes "scan_loop (scan_body fetch score mw) us st = Inr (e, st', p)" and "best st' = Some b"
  shows "best st = Some b \<or> b \<in> set (valid_scored fetch score mw us)"
  using assms
proof (induction us arbitrary: st p)
  case Nil
  then show ?case by simp
next
  case (Cons u us)
  have step: "best st1 = Some b \<Longrightarrow> scan_body fetch score mw st u = Inr (fl, st1) \<Longrightarrow>
      best st = Some b \<or> b \<in> set (valid_scored fetch score mw (u # us))" for st1 fl
  proof -
    assume b: "best st1 = Some b" and s: "scan_body fetch score mw st u = Inr (fl, st1)"
    from s show ?thesis
    proof (cases rule: body_cases)
      case failed
      with b show ?thesis by simp
    next
      case filtered
      with b show ?thesis by simp
    next
      case (valid img)
      with b have "improve (best st) (scored score u img) = Some b"
        by (simp add: accept_simps)
      then have "best st = Some b \<or> b = scored score u img"
        by (cases "best st") (auto simp: improve_def split: if_splits)
      with valid show ?thesis by auto
    qed
  qed
  from Cons.prems(1) show ?case
  proof (cases rule: loop_Cons_cases)
    case stop
    with step [OF Cons.prems(2)] show ?thesis by blast
  next
    case (continue st1 p1)
    from Cons.IH [OF continue(2) Cons.prems(2)] show ?thesis
    proof
      assume "best st1 = Some b"
      from step [OF this continue(1)] show ?thesis .
    next
      assume "b \<in> set (valid_scored fetch score mw us)"
      then show ?thesis by (auto split: option.splits)
    qed
  qed
qed

lemma early_exit_iff:
  assumes "scan_loop (scan_body fetch score mw) us st = Inr (e, st', p)" and "\<not> good_enough st"
  shows "good_enough st' \<longleftrightarrow> e = EarlyExit"
  using assms
proof (induction us arbitrary: st p)
  case Nil
  then show ?case by auto
next
  case (Cons u us)
  from Cons.prems(1) show ?case
  proof (cases rule: loop_Cons_cases)
    case stop
    from stop(1) show ?thesis
      by (cases rule: body_cases) (auto simp: verdict_Stop)
  next
    case (continue st1 p1)
    from continue(1) have "\<not> good_enough st1"
      using Cons.prems(2)
      by (cases rule: body_cases) (auto simp: verdict_Next good_enough_checked)
    from Cons.IH [OF continue(2) this] show ?thesis .
  qed
qed

lemma loop_counts:
  assumes "scan_loop (scan_body fetch score mw) us st = Inr (e, st', p)"
    and "valid_candidates st \<le> checked st" and "valid_candidates st < 100"
  shows "valid_candidates st' \<le> checked st' \<and> valid_candidates st' \<le> 100
         \<and> checked st' \<le> checked st + length p
         \<and> (e = SafetyCap \<longrightarrow> 100 \<le> checked st')"
  using assms
proof (induction us arbitrary: st p)
  case Nil
  then show ?case by auto
next
  case (Cons u us)
  from Cons.prems(1) show ?case
  proof (cases rule: loop_Cons_cases)
    case stop
    from stop(1) show ?thesis
      using Cons.prems(2,3) stop(2)
      by (cases rule: body_cases) (auto simp: verdict_Stop accept_simps)
  next
    case (continue st1 p1)
    from continue(1) have inv: "valid_candidates st1 \<le> checked st1 \<and> valid_candidates st1 < 100
        \<and> checked st1 \<le> checked st + 1"
      using Cons.prems(2,3)
      by (cases rule: body_cases) (auto simp: verdict_Next accept_simps)
    from Cons.IH [OF continue(2)] inv continue(3) show ?thesis by auto
  qed
qed

lemma all_pass_counts:
  assumes "scan_loop (scan_body fetch score mw) us st = Inr (e, st', p)"
    and "\<forall>u\<in>set us. \<not> rejected fetch mw u"
  shows "valid_candidates st' = valid_candidates st + length p"
  using assms
proof (induction us arbitrary: st p)
  case Nil
  then show ?case by auto
next
  case (Cons u us)
  from Cons.prems(2) have nr: "\<not> rejected fetch mw u" by simp
  have step: "scan_body fetch score mw st u = Inr (fl, st1) \<Longrightarrow> valid_candidates st1 = valid_candidates st + 1" for fl st1
  proof -
    assume "scan_body fetch score mw st u = Inr (fl, st1)"
    then show ?thesis
      using nr by (cases rule: body_cases) (auto simp: accept_simps rejected_def)
  qed
  from Cons.prems(1) show ?case
  proof (cases rule: loop_Cons_cases)
    case stop
    with step [OF stop(1)] show ?thesis by simp
  next
    case (continue st1 p1)
    from Cons.prems(2) have "\<forall>u\<in>set us. \<not> rejected fetch mw u" by simp
    from Cons.IH [OF continue(2) this] step [OF continue(1)] continue(3) show ?thesis by simp
  qed
qed

section \<open>The examples, evaluated\<close>

lemmas demo_simps = scan_def scan_body_def init_state_def demo_fetch_def demo_score_def
  improve_def good_enough_def infer_ext_def Let_def lower_def lower_char_def rank_candidates_def

lemma demo_abc:
  "scan demo_fetch demo_score 1280 [''a'', ''b'', ''c'']
   = Inr (Exhausted, \<lparr>best = Some (2, ''B'', ''.png''), checked = 3, valid_candidates = 3\<rparr>, [''a'', ''b'', ''c''])"
  by (simp add: demo_simps)

lemma demo_abc_scored:
  "valid_scored demo_fetch demo_score 1280 [''a'', ''b'', ''c''] = [(5, ''A'', ''.jpg''), (2, ''B'', ''.png''), (8, ''C'', ''.jpg'')]"
  by (simp add: demo_fetch_def demo_score_def qualifies_def scored_def infer_ext_def Let_def lower_def lower_char_def
      match_ext_at_def try_token_def ext_follow_def)

lemma demo_nw_facts:
  "rejected demo_fetch 1280 ''n'' \<and> demo_fetch ''n'' \<noteq> None \<and> \<not> rejected demo_fetch 1280 ''w''
   \<and> length (filter (\<lambda>u. demo_fetch u \<noteq> None) [''n'', ''w'']) < 100
   \<and> demo_score ''N'' 500 281 = - 100 \<and> demo_score ''W'' 2000 1125 = 0.5"
  by (simp add: demo_fetch_def demo_score_def rejected_def)

lemma demo_wg:
  "scan demo_fetch demo_score 1280 [''w'', ''g'']
   = Inr (EarlyExit, \<lparr>best = Some (0.25, ''G'', ''.webp''), checked = 2, valid_candidates = 2\<rparr>, [''w'', ''g''])"
  by (simp add: demo_simps)

lemma demo_xyb:
  "demo_fetch ''x'' = None \<and> demo_fetch ''y'' = None \<and> demo_fetch ''b'' = Some (''B'', 2560, 1440, ''image/png'')
   \<and> qualifies 1280 (''B'', 2560, 1440, ''image/png'') \<and> infer_ext ''b'' (Some ''image/png'') = ''.png''"
  by (simp add: demo_fetch_def qualifies_def infer_ext_def lower_def lower_char_def)

lemma narrow_rejected: "\<forall>u\<in>set narrow_urls. rejected cap_fetch 1280 u \<and> cap_fetch u \<noteq> None"
  by (auto simp: narrow_urls_def cap_fetch_def rejected_def)

lemma cap_run:
  "scan cap_fetch cap_score 1280 (narrow_urls @ [''a'', ''b''])
   = Inr (SafetyCap, \<lparr>best = Some (5, ''A'', ''.jpg''), checked = 101, valid_candidates = 1\<rparr>, narrow_urls @ [''a''])"
proof -
  have n: "scan_loop (scan_body cap_fetch cap_score 1280) narrow_urls init_state
      = Inr (Exhausted, init_state\<lparr>checked := checked init_state + length narrow_urls\<rparr>, narrow_urls)"
    using narrow_rejected by (rule filtered_run)
  have l: "length narrow_urls = 100" by (simp add: narrow_urls_def)
  show ?thesis
    unfolding scan_def loop_exhausted_append [OF n] l
    by (simp add: scan_body_def init_state_def cap_fetch_def cap_score_def improve_def good_enough_def infer_ext_def Let_def lower_def lower_char_def)
qed

lemma short_run:
  "scan cap_fetch cap_score 1280 [''a'', ''b'']
   = Inr (Exhausted, \<lparr>best = Some (2, ''B'', ''.jpg''), checked = 2, valid_candidates = 2\<rparr>, [''a'', ''b''])"
  by (simp add: scan_def scan_body_def init_state_def cap_fetch_def cap_score_def improve_def good_enough_def infer_ext_def Let_def lower_def lower_char_def)

lemma cap_valid_scored:
  "valid_scored cap_fetch cap_score 1280 (narrow_urls @ [''a'', ''b'']) = [(5, ''A'', ''.jpg''), (2, ''B'', ''.jpg'')]"
proof -
  have "valid_scored cap_fetch cap_score 1280 narrow_urls = []"
    using narrow_rejected by (intro valid_scored_all_rejected) blast
  then show ?thesis
    by (simp add: valid_scored_append cap_fetch_def cap_score_def qualifies_def scored_def infer_ext_def Let_def lower_def lower_char_def)
qed

lemma dead_run: "scan no_fetch cap_score 1280 dead_urls = Inr (Exhausted, init_state, dead_urls) \<and> length dead_urls = 101"
  by (simp add: scan_def failed_run no_fetch_def) (simp add: dead_urls_def)

section \<open>Best-So-Far is the first least score\<close>

lemma improve_Some_fold:
  "foldl improve (Some a) cs = Some b \<Longrightarrow>
     (b = a \<and> (\<forall>c\<in>set cs. fst a \<le> fst c))
   \<or> (\<exists>xs ys. cs = xs @ b # ys \<and> fst b < fst a \<and> (\<forall>c\<in>set xs. fst b < fst c) \<and> (\<forall>c\<in>set ys. fst b \<le> fst c))"
proof (induction cs arbitrary: a)
  case Nil
  then show ?case by simp
next
  case (Cons c cs)
  show ?case
  proof (cases "fst c < fst a")
    case True
    with Cons.prems have "foldl improve (Some c) cs = Some b" by (simp add: improve_Some)
    from Cons.IH [OF this] show ?thesis
    proof
      assume "b = c \<and> (\<forall>d\<in>set cs. fst c \<le> fst d)"
      with True have "c # cs = [] @ b # cs \<and> fst b < fst a \<and> (\<forall>d\<in>set []. fst b < fst d) \<and> (\<forall>d\<in>set cs. fst b \<le> fst d)"
        by simp
      then show ?thesis by blast
    next
      assume "\<exists>xs ys. cs = xs @ b # ys \<and> fst b < fst c \<and> (\<forall>d\<in>set xs. fst b < fst d) \<and> (\<forall>d\<in>set ys. fst b \<le> fst d)"
      then obtain xs ys where h: "cs = xs @ b # ys" "fst b < fst c" "\<forall>d\<in>set xs. fst b < fst d" "\<forall>d\<in>set ys. fst b \<le> fst d"
        by blast
      with True have "c # cs = (c # xs) @ b # ys \<and> fst b < fst a \<and> (\<forall>d\<in>set (c # xs). fst b < fst d) \<and> (\<forall>d\<in>set ys. fst b \<le> fst d)"
        by auto
      then show ?thesis by blast
    qed
  next
    case False
    with Cons.prems have "foldl improve (Some a) cs = Some b" by (simp add: improve_Some)
    from Cons.IH [OF this] show ?thesis
    proof
      assume "b = a \<and> (\<forall>d\<in>set cs. fst a \<le> fst d)"
      with False show ?thesis by auto
    next
      assume "\<exists>xs ys. cs = xs @ b # ys \<and> fst b < fst a \<and> (\<forall>d\<in>set xs. fst b < fst d) \<and> (\<forall>d\<in>set ys. fst b \<le> fst d)"
      then obtain xs ys where h: "cs = xs @ b # ys" "fst b < fst a" "\<forall>d\<in>set xs. fst b < fst d" "\<forall>d\<in>set ys. fst b \<le> fst d"
        by blast
      with False have "c # cs = (c # xs) @ b # ys \<and> fst b < fst a \<and> (\<forall>d\<in>set (c # xs). fst b < fst d) \<and> (\<forall>d\<in>set ys. fst b \<le> fst d)"
        by auto
      then show ?thesis by blast
    qed
  qed
qed

lemma improve_fold_Some: "\<exists>b. foldl improve (Some a) cs = Some b"
proof (induction cs arbitrary: a)
  case Nil
  show ?case by (simp del: split_paired_Ex)
next
  case (Cons c cs)
  show ?case
    using Cons [of c] Cons [of a] by (cases "fst c < fst a") (simp_all add: improve_Some del: split_paired_Ex)
qed

lemma improve_None_fold:
  assumes "cs \<noteq> []"
  shows "\<exists>b xs ys. foldl improve None cs = Some b \<and> cs = xs @ b # ys
           \<and> (\<forall>c\<in>set xs. fst b < fst c) \<and> (\<forall>c\<in>set ys. fst b \<le> fst c)"
proof -
  from assms obtain c cs' where cs: "cs = c # cs'" by (cases cs) auto
  obtain b where b: "foldl improve (Some c) cs' = Some b"
    using improve_fold_Some by blast
  from improve_Some_fold [OF b] show ?thesis
  proof
    assume "b = c \<and> (\<forall>d\<in>set cs'. fst c \<le> fst d)"
    with b cs have "foldl improve None cs = Some b \<and> cs = [] @ b # cs'
        \<and> (\<forall>d\<in>set []. fst b < fst d) \<and> (\<forall>d\<in>set cs'. fst b \<le> fst d)"
      by (simp add: improve_None)
    then show ?thesis by blast
  next
    assume "\<exists>xs ys. cs' = xs @ b # ys \<and> fst b < fst c \<and> (\<forall>d\<in>set xs. fst b < fst d) \<and> (\<forall>d\<in>set ys. fst b \<le> fst d)"
    then obtain xs ys where h: "cs' = xs @ b # ys" "fst b < fst c" "\<forall>d\<in>set xs. fst b < fst d" "\<forall>d\<in>set ys. fst b \<le> fst d"
      by blast
    with b cs have "foldl improve None cs = Some b \<and> cs = (c # xs) @ b # ys
        \<and> (\<forall>d\<in>set (c # xs). fst b < fst d) \<and> (\<forall>d\<in>set ys. fst b \<le> fst d)"
      by (simp add: improve_None)
    then show ?thesis by blast
  qed
qed

lemma body_best_monotone:
  assumes "scan_body fetch score mw s u = Inr (fl, s')" and "best s = Some b0"
  shows "\<exists>b'. best s' = Some b' \<and> fst b' \<le> fst b0 \<and> (b' \<noteq> b0 \<longrightarrow> fst b' < fst b0)"
  using assms(1)
proof (cases rule: body_cases)
  case failed
  with assms(2) show ?thesis by simp
next
  case filtered
  with assms(2) show ?thesis by simp
next
  case (valid img)
  with assms(2) have b: "best s' = (if fst (scored score u img) < fst b0 then Some (scored score u img) else Some b0)"
    by (simp add: accept_simps improve_Some)
  show ?thesis
  proof (cases "fst (scored score u img) < fst b0")
    case True
    with b show ?thesis by (intro exI [of _ "scored score u img"]) simp
  next
    case False
    with b show ?thesis by (intro exI [of _ b0]) simp
  qed
qed

lemma body_first_valid:
  assumes "scan_body fetch score mw s u = Inr (fl, s')" and "best s = None"
    and "fetch u = Some img" and "qualifies mw img"
  shows "best s' = Some (scored score u img)"
proof -
  from assms(1) body_valid [where fetch = fetch and url = u and score = score and st = s, OF assms(3,4)]
  have "s' = accept s (scored score u img)" by simp
  with assms(2) show ?thesis by (simp add: accept_simps improve_None)
qed

lemma three_scores:
  assumes "map fst cs = [5, 2, 8 :: real]"
  shows "map_option fst (foldl improve None cs) = Some 2"
proof -
  from assms obtain c1 c2 c3 where "cs = [c1, c2, c3]" "fst c1 = 5" "fst c2 = 2" "fst c3 = 8"
    by (auto simp: map_eq_Cons_conv)
  then show ?thesis by (simp add: improve_def)
qed

text \<open>
  C1 as stated takes the minimum over every filter-passing candidate of the list whenever
  the early exit does not trigger. The safety cap also ends the loop: after a hundred
  downloads that were too narrow, the loop stops at the first valid candidate (score 5)
  and never sees the second (score 2).
\<close>

theorem running_minimum_cap_counterexample:
  "scan cap_fetch cap_score 1280 (narrow_urls @ [''a'', ''b''])
     = Inr (SafetyCap, \<lparr>best = Some (5, ''A'', ''.jpg''), checked = 101, valid_candidates = 1\<rparr>, narrow_urls @ [''a''])
   \<and> valid_scored cap_fetch cap_score 1280 (narrow_urls @ [''a'', ''b'']) = [(5, ''A'', ''.jpg''), (2, ''B'', ''.jpg'')]"
  using cap_run cap_valid_scored by simp

text \<open>
  C1, amended. In a run that consumes the whole list (neither the early exit nor the
  safety cap ends it and no image has height zero), every URL is probed and Best-So-Far
  is the running strict minimum over the filter-passing candidates: none when there is
  none, otherwise the first candidate in list order attaining the least score (all
  earlier ones score strictly higher, all later ones at least as high); valid candidates
  scored 5, 2, 8 in that order end with best score 2. In every pass through the loop body
  the best score does not increase, the best is replaced only by a strictly lower score,
  and the first valid candidate becomes the initial best.
\<close>

theorem best_is_running_minimum:
  "(scan fetch score mw us = Inr (Exhausted, st, p) \<longrightarrow>
      p = us
      \<and> (valid_scored fetch score mw us = [] \<longrightarrow> best st = None)
      \<and> (valid_scored fetch score mw us \<noteq> [] \<longrightarrow>
           (\<exists>b xs ys. best st = Some b \<and> valid_scored fetch score mw us = xs @ b # ys
              \<and> (\<forall>c\<in>set xs. fst b < fst c) \<and> (\<forall>c\<in>set ys. fst b \<le> fst c)))
      \<and> (map fst (valid_scored fetch score mw us) = [5, 2, 8] \<longrightarrow> map_option fst (best st) = Some 2))
   \<and> (scan_body fetch score mw s u = Inr (fl, s') \<and> best s = Some b0 \<longrightarrow>
        (\<exists>b'. best s' = Some b' \<and> fst b' \<le> fst b0 \<and> (b' \<noteq> b0 \<longrightarrow> fst b' < fst b0)))
   \<and> (scan_body fetch score mw t v = Inr (gl, t') \<and> best t = None \<and> fetch v = Some img \<and> qualifies mw img \<longrightarrow>
        best t' = Some (scored score v img))"
proof -
  have 1: "p = us \<and> (valid_scored fetch score mw us = [] \<longrightarrow> best st = None)
      \<and> (valid_scored fetch score mw us \<noteq> [] \<longrightarrow>
           (\<exists>b xs ys. best st = Some b \<and> valid_scored fetch score mw us = xs @ b # ys
              \<and> (\<forall>c\<in>set xs. fst b < fst c) \<and> (\<forall>c\<in>set ys. fst b \<le> fst c)))
      \<and> (map fst (valid_scored fetch score mw us) = [5, 2, 8] \<longrightarrow> map_option fst (best st) = Some 2)"
    if s: "scan fetch score mw us = Inr (Exhausted, st, p)"
  proof -
    from s have "scan_loop (scan_body fetch score mw) us init_state = Inr (Exhausted, st, p)"
      by (simp add: scan_def)
    from exhausted_run [OF this]
    have b: "best st = foldl improve None (valid_scored fetch score mw us)" and p: "p = us"
      by (simp_all add: init_state_def)
    have e: "valid_scored fetch score mw us = [] \<longrightarrow> best st = None"
      using b by simp
    have n: "valid_scored fetch score mw us \<noteq> [] \<longrightarrow>
           (\<exists>b xs ys. best st = Some b \<and> valid_scored fetch score mw us = xs @ b # ys
              \<and> (\<forall>c\<in>set xs. fst b < fst c) \<and> (\<forall>c\<in>set ys. fst b \<le> fst c))"
      using improve_None_fold [of "valid_scored fetch score mw us"] b by simp
    have t: "map fst (valid_scored fetch score mw us) = [5, 2, 8] \<longrightarrow> map_option fst (best st) = Some 2"
      using three_scores [of "valid_scored fetch score mw us"] b by simp
    from p e n t show ?thesis by blast
  qed
  have 2: "scan_body fetch score mw s u = Inr (fl, s') \<and> best s = Some b0 \<longrightarrow>
        (\<exists>b'. best s' = Some b' \<and> fst b' \<le> fst b0 \<and> (b' \<noteq> b0 \<longrightarrow> fst b' < fst b0))"
    using body_best_monotone by blast
  have 3: "scan_body fetch score mw t v = Inr (gl, t') \<and> best t = None \<and> fetch v = Some img \<and> qualifies mw img \<longrightarrow>
        best t' = Some (scored score v img)"
    using body_first_valid by blast
  from 1 2 3 show ?thesis by blast
qed

theorem best_is_running_minimum_witness:
  "scan demo_fetch demo_score 1280 [''a'', ''b'', ''c'']
     = Inr (Exhausted, \<lparr>best = Some (2, ''B'', ''.png''), checked = 3, valid_candidates = 3\<rparr>, [''a'', ''b'', ''c''])
   \<and> map fst (valid_scored demo_fetch demo_score 1280 [''a'', ''b'', ''c'']) = [5, 2, 8]
   \<and> map_option fst (best \<lparr>best = Some (2, ''B'', ''.png''), checked = 3, valid_candidates = 3\<rparr>) = Some (2 :: real)
   \<and> scan_body demo_fetch demo_score 1280 \<lparr>best = Some (5, ''A'', ''.jpg''), checked = 1, valid_candidates = 1\<rparr> ''b''
       = Inr (Next, \<lparr>best = Some (2, ''B'', ''.png''), checked = 2, valid_candidates = 2\<rparr>)
   \<and> fst (2 :: real, ''B'', ''.png'') \<le> fst (5 :: real, ''A'', ''.jpg'')
   \<and> scan_body demo_fetch demo_score 1280 init_state ''a''
       = Inr (Next, \<lparr>best = Some (5, ''A'', ''.jpg''), checked = 1, valid_candidates = 1\<rparr>)
   \<and> best init_state = None
   \<and> demo_fetch ''a'' = Some (''A'', 1920, 1080, ''image/jpeg'')
   \<and> qualifies 1280 (''A'', 1920, 1080, ''image/jpeg'')
   \<and> scored demo_score ''a'' (''A'', 1920, 1080, ''image/jpeg'') = (5, ''A'', ''.jpg'')"
proof -
  have b: "scan_body demo_fetch demo_score 1280 \<lparr>best = Some (5, ''A'', ''.jpg''), checked = 1, valid_candidates = 1\<rparr> ''b''
       = Inr (Next, \<lparr>best = Some (2, ''B'', ''.png''), checked = 2, valid_candidates = 2\<rparr>)"
    by (simp add: demo_simps)
  have a: "scan_body demo_fetch demo_score 1280 init_state ''a''
       = Inr (Next, \<lparr>best = Some (5, ''A'', ''.jpg''), checked = 1, valid_candidates = 1\<rparr>)"
    by (simp add: demo_simps)
  have q: "best init_state = None \<and> demo_fetch ''a'' = Some (''A'', 1920, 1080, ''image/jpeg'')
      \<and> qualifies 1280 (''A'', 1920, 1080, ''image/jpeg'')
      \<and> scored demo_score ''a'' (''A'', 1920, 1080, ''image/jpeg'') = (5, ''A'', ''.jpg'')"
    by (simp add: init_state_def demo_fetch_def demo_score_def qualifies_def scored_def infer_ext_def Let_def lower_def lower_char_def)
  from best_is_running_minimum [of demo_fetch demo_score 1280 "[''a'', ''b'', ''c'']"
      "\<lparr>best = Some (2, ''B'', ''.png''), checked = 3, valid_candidates = 3\<rparr>" "[''a'', ''b'', ''c'']"
      "\<lparr>best = Some (5, ''A'', ''.jpg''), checked = 1, valid_candidates = 1\<rparr>" "''b''" Next
      "\<lparr>best = Some (2, ''B'', ''.png''), checked = 2, valid_candidates = 2\<rparr>" "(5, ''A'', ''.jpg'')"
      init_state "''a''" Next "\<lparr>best = Some (5, ''A'', ''.jpg''), checked = 1, valid_candidates = 1\<rparr>"
      "(''A'', 1920, 1080, ''image/jpeg'')"]
    demo_abc demo_abc_scored a b q
  show ?thesis by simp
qed

section \<open>The safety cap\<close>

text \<open>
  C2 as stated bounds the number of probe attempts by 100, failed ones included. With
  the network down, the loop fetches all 101 URLs of a list of 101.
\<close>

theorem probe_cap_counterexample:
  "scan no_fetch cap_score 1280 dead_urls = Inr (Exhausted, init_state, dead_urls)
   \<and> length dead_urls = 101"
  by (rule dead_run)

text \<open>
  C2, amended. The cap counts downloaded images, not attempts, and is tested after a
  filter-passing candidate: every run scores at most 100 filter-passing candidates, a run
  ended by the cap has downloaded at least 100 images, and a run over a list in which
  every candidate downloads and passes the filters fetches at most 100 URLs. When every
  probe fails, every URL of the list is fetched.
\<close>

theorem cap_counts_checked_images:
  assumes "scan fetch score mw us = Inr (e, st, p)"
  shows "valid_candidates st \<le> 100 \<and> valid_candidates st \<le> checked st \<and> checked st \<le> length p
    \<and> length p \<le> length us
    \<and> (e = SafetyCap \<longrightarrow> 100 \<le> checked st)
    \<and> ((\<forall>u\<in>set us. \<not> rejected fetch mw u) \<longrightarrow> length p \<le> 100)
    \<and> ((\<forall>u\<in>set us. fetch u = None) \<longrightarrow> e = Exhausted \<and> p = us)"
proof -
  from assms have l: "scan_loop (scan_body fetch score mw) us init_state = Inr (e, st, p)"
    by (simp add: scan_def)
  from loop_counts [OF l] have c: "valid_candidates st \<le> checked st \<and> valid_candidates st \<le> 100
      \<and> checked st \<le> length p \<and> (e = SafetyCap \<longrightarrow> 100 \<le> checked st)"
    by (simp add: init_state_def)
  have "length p = length (take (length p) us)"
    using loop_prefix [OF l] by simp
  then have "length p \<le> length us"
    by simp
  moreover have "(\<forall>u\<in>set us. \<not> rejected fetch mw u) \<longrightarrow> length p \<le> 100"
    using all_pass_counts [OF l] c by (auto simp: init_state_def)
  moreover have "(\<forall>u\<in>set us. fetch u = None) \<longrightarrow> e = Exhausted \<and> p = us"
    using failed_run [of us fetch score mw init_state] l by auto
  ultimately show ?thesis using c by blast
qed

theorem cap_counts_checked_images_witness:
  "scan demo_fetch demo_score 1280 [''a'', ''b'', ''c'']
     = Inr (Exhausted, \<lparr>best = Some (2, ''B'', ''.png''), checked = 3, valid_candidates = 3\<rparr>, [''a'', ''b'', ''c''])
   \<and> \<not> rejected demo_fetch 1280 ''a'' \<and> \<not> rejected demo_fetch 1280 ''b'' \<and> \<not> rejected demo_fetch 1280 ''c''
   \<and> length [''a'', ''b'', ''c''] \<le> (100 :: nat)
   \<and> scan cap_fetch cap_score 1280 (narrow_urls @ [''a'', ''b''])
     = Inr (SafetyCap, \<lparr>best = Some (5, ''A'', ''.jpg''), checked = 101, valid_candidates = 1\<rparr>, narrow_urls @ [''a''])
   \<and> 100 \<le> checked \<lparr>best = Some (5 :: real, ''A'', ''.jpg''), checked = 101, valid_candidates = 1\<rparr>
   \<and> valid_candidates \<lparr>best = Some (5 :: real, ''A'', ''.jpg''), checked = 101, valid_candidates = 1\<rparr> \<le> 100
   \<and> no_fetch ''u'' = None
   \<and> scan no_fetch cap_score 1280 dead_urls = Inr (Exhausted, init_state, dead_urls)"
proof -
  have r: "\<not> rejected demo_fetch 1280 ''a'' \<and> \<not> rejected demo_fetch 1280 ''b'' \<and> \<not> rejected demo_fetch 1280 ''c''
      \<and> no_fetch ''u'' = None"
    by (simp add: rejected_def demo_fetch_def no_fetch_def)
  from cap_counts_checked_images [OF demo_abc] cap_counts_checked_images [OF cap_run]
    cap_counts_checked_images [OF conjunct1 [OF dead_run]] demo_abc cap_run dead_run r
  show ?thesis by simp
qed

section \<open>Source adapters\<close>

lemma collect_cases:
  "collect_candidates out =
     (let q1 = [MovieDatabases]; p1 = out MovieDatabases;
          q2 = (if length p1 < 10 then q1 @ [FreeImageApis] else q1);
          p2 = (if length p1 < 10 then p1 @ out FreeImageApis else p1);
          q3 = (if length p2 < 20 then q2 @ [Google] else q2);
          p3 = (if length p2 < 20 then p2 @ out Google else p2);
          q4 = (if length p3 < 30 then q3 @ [DuckDuckGo] else q3);
          p4 = (if length p3 < 30 then p3 @ out DuckDuckGo else p3);
          q5 = (if length p4 < 40 then q4 @ [Bing] else q4);
          p5 = (if length p4 < 40 then p4 @ out Bing else p4)
      in (q5, p5))"
  by (simp add: collect_candidates_def query_if_below_def Let_def)

text \<open>
  C3 as stated compares the number of unique URLs with the thresholds. With three URLs
  from the movie databases and the same twenty URLs from Google and from DuckDuckGo, the
  list holds 43 entries and 23 unique URLs, and Bing (threshold 40) is not queried.
\<close>

theorem adapters_unique_count_counterexample:
  "fst (collect_candidates overlap_out) = [MovieDatabases, FreeImageApis, Google, DuckDuckGo]
   \<and> length (snd (collect_candidates overlap_out)) = 43
   \<and> length (dedup (snd (collect_candidates overlap_out))) = 23"
  by (simp add: collect_cases overlap_out_def engine_urls_def dedup_def)

text \<open>
  C3, amended. For every title the adapters are queried in the fixed priority order movie
  databases, free image APIs, Google, DuckDuckGo, Bing; the movie databases are always
  queried; the candidate list is the concatenation of the outputs of the queried
  adapters; and each later adapter is skipped exactly when the number of URLs accumulated
  from the queried higher-priority adapters, duplicates counted, has reached its
  threshold (10, 20, 30, 40).
\<close>

theorem adapters_in_priority_order:
  "(case collect_candidates out of (queried, probe) \<Rightarrow>
      sorted_wrt (\<lambda>a b. priority a < priority b) queried
      \<and> MovieDatabases \<in> set queried
      \<and> probe = concat (map out queried)
      \<and> (s \<noteq> MovieDatabases \<longrightarrow>
           (s \<in> set queried \<longleftrightarrow> length (accumulated out queried s) < threshold s)))"
  by (cases s) (simp_all add: collect_cases Let_def accumulated_def)

theorem adapters_in_priority_order_witness:
  "Bing \<noteq> MovieDatabases
   \<and> collect_candidates few_out
       = ([MovieDatabases, FreeImageApis, Google, DuckDuckGo, Bing], [''m1'', ''m2'', ''m3'', ''b1''])
   \<and> length (accumulated few_out [MovieDatabases, FreeImageApis, Google, DuckDuckGo, Bing] Bing) < threshold Bing
   \<and> Bing \<in> set [MovieDatabases, FreeImageApis, Google, DuckDuckGo, Bing]"
  using adapters_in_priority_order [of few_out Bing]
  by (simp add: collect_cases few_out_def accumulated_def)

section \<open>Candidates that fail to download or fail a filter\<close>

lemma without_trace_Cons:
  "without_trace (scan_loop body (u # us) st) =
     (case body st u of
        Inl e \<Rightarrow> Inl e
      | Inr (Stop e, st') \<Rightarrow> Inr (e, st')
      | Inr (Next, st') \<Rightarrow> without_trace (scan_loop body us st'))"
  by (simp add: without_trace_def split: sum.splits prod.splits flow.splits)

lemma scan_loop_skip_failed:
  "without_trace (scan_loop (scan_body fetch score mw) (filter (\<lambda>u. fetch u \<noteq> None) us) st)
   = without_trace (scan_loop (scan_body fetch score mw) us st)"
proof (induction us arbitrary: st)
  case Nil
  show ?case by simp
next
  case (Cons u us)
  show ?case
  proof (cases "fetch u")
    case None
    then have "filter (\<lambda>u. fetch u \<noteq> None) (u # us) = filter (\<lambda>u. fetch u \<noteq> None) us"
      by simp
    with None Cons.IH [of st] show ?thesis
      by (simp only: without_trace_Cons body_fail sum.case prod.case flow.case)
  next
    case (Some img)
    then have "filter (\<lambda>u. fetch u \<noteq> None) (u # us) = u # filter (\<lambda>u. fetch u \<noteq> None) us"
      by (cases img) auto
    then show ?thesis
      by (simp only: without_trace_Cons Cons.IH)
  qed
qed

lemma rank_candidates_eq:
  "rank_candidates fetch score mw us =
     (case without_trace (scan fetch score mw us) of
        Inl e \<Rightarrow> Inl e
      | Inr (e, st) \<Rightarrow> (case best st of Some (sc, data, ext) \<Rightarrow> Inr (Some data, Some ext)
                        | None \<Rightarrow> Inr (None, None)))"
  by (cases us) (auto simp: rank_candidates_def scan_def init_state_def without_trace_def split: sum.splits prod.splits option.splits)

lemma rank_skip_failed:
  "rank_candidates fetch score mw (filter (\<lambda>u. fetch u \<noteq> None) us) = rank_candidates fetch score mw us"
  by (simp only: rank_candidates_eq scan_def scan_loop_skip_failed)

lemma observe_Cons:
  "observe (scan_loop body (u # us) st) =
     (case body st u of
        Inl e \<Rightarrow> Inl e
      | Inr (Stop e, st') \<Rightarrow> Inr (e, best st', valid_candidates st')
      | Inr (Next, st') \<Rightarrow> observe (scan_loop body us st'))"
  by (simp add: observe_def split: sum.splits prod.splits flow.splits)

lemma not_rejected_cases:
  assumes "\<not> rejected fetch mw u"
  obtains (zero) "\<And>st. scan_body fetch score mw st u = Inl ZeroDivisionError"
  | (valid) img where "fetch u = Some img" "qualifies mw img"
proof (cases rule: image_cases [where fetch = fetch and url = u and mw = mw])
  case fail
  with assms show ?thesis by (simp add: rejected_def)
next
  case (narrow data w h ct)
  with assms show ?thesis by (simp add: rejected_def)
next
  case (zero data w ct)
  then show ?thesis by (intro that(1)) (simp add: body_zero)
next
  case (valid img)
  then show ?thesis by (rule that(2))
qed

lemma skip_rejected:
  assumes "checked st + length (filter (\<lambda>u. fetch u \<noteq> None) us) < 100"
    and "best st2 = best st" and "valid_candidates st2 = valid_candidates st"
    and "checked st2 \<le> checked st"
  shows "observe (scan_loop (scan_body fetch score mw) (filter (\<lambda>u. \<not> rejected fetch mw u) us) st2)
       = observe (scan_loop (scan_body fetch score mw) us st)"
  using assms
proof (induction us arbitrary: st st2)
  case Nil
  then show ?case by (simp add: observe_def)
next
  case (Cons u us)
  show ?case
  proof (cases "rejected fetch mw u")
    case True
    show ?thesis
    proof (cases "fetch u")
      case None
      with Cons.prems have "checked st + length (filter (\<lambda>u. fetch u \<noteq> None) us) < 100"
        by simp
      from Cons.IH [OF this Cons.prems(2,3,4)] True None show ?thesis
        by (simp add: observe_Cons body_fail del: scan_loop.simps)
    next
      case (Some img)
      with Cons.prems have c: "checked (st\<lparr>checked := checked st + 1\<rparr>) + length (filter (\<lambda>u. fetch u \<noteq> None) us) < 100"
        by (cases img) auto
      have "observe (scan_loop (scan_body fetch score mw) (filter (\<lambda>u. \<not> rejected fetch mw u) us) st2)
          = observe (scan_loop (scan_body fetch score mw) us (st\<lparr>checked := checked st + 1\<rparr>))"
        using Cons.prems(2,3,4) by (intro Cons.IH [OF c]) simp_all
      moreover have "scan_body fetch score mw st u = Inr (Next, st\<lparr>checked := checked st + 1\<rparr>)"
        using True Some by (intro rejected_body) simp_all
      ultimately show ?thesis using True by (simp add: observe_Cons del: scan_loop.simps)
    qed
  next
    case False
    then have f: "filter (\<lambda>u. \<not> rejected fetch mw u) (u # us) = u # filter (\<lambda>u. \<not> rejected fetch mw u) us"
      by simp
    from False show ?thesis
    proof (cases rule: not_rejected_cases [where score = score])
      case zero
      then show ?thesis using False by (simp add: observe_Cons del: scan_loop.simps)
    next
      case (valid img)
      let ?c = "scored score u img"
      from valid Cons.prems(1) have lt: "checked st + 1 + length (filter (\<lambda>u. fetch u \<noteq> None) us) < 100"
        by (cases img) auto
      have g: "good_enough (accept st2 ?c) = good_enough (accept st ?c)"
        using Cons.prems(2,3) by (simp add: good_enough_def accept_simps split: option.splits)
      have v: "verdict (accept st2 ?c) = verdict (accept st ?c)"
        using g lt Cons.prems(4) by (simp add: verdict_def accept_simps)
      have ih: "observe (scan_loop (scan_body fetch score mw) (filter (\<lambda>u. \<not> rejected fetch mw u) us) (accept st2 ?c))
          = observe (scan_loop (scan_body fetch score mw) us (accept st ?c))"
        using lt Cons.prems(2,3,4) by (intro Cons.IH) (simp_all add: accept_simps)
      have b1: "scan_body fetch score mw st u = Inr (verdict (accept st ?c), accept st ?c)"
        using valid by (rule body_valid)
      have b2: "scan_body fetch score mw st2 u = Inr (verdict (accept st ?c), accept st2 ?c)"
        using body_valid [where fetch = fetch and url = u and score = score and st = st2, OF valid] v by simp
      show ?thesis
        using ih Cons.prems(2,3) False
        by (cases "verdict (accept st ?c)") (simp_all add: observe_Cons b1 b2 accept_simps del: scan_loop.simps)
    qed
  qed
qed

lemma rank_candidates_observe:
  "rank_candidates fetch score mw us =
     (case observe (scan fetch score mw us) of
        Inl e \<Rightarrow> Inl e
      | Inr (e, b, v) \<Rightarrow> (case b of Some (sc, data, ext) \<Rightarrow> Inr (Some data, Some ext)
                          | None \<Rightarrow> Inr (None, None)))"
  by (cases us) (auto simp: rank_candidates_def scan_def init_state_def observe_def split: sum.splits prod.splits option.splits)

lemma rank_skip_rejected:
  assumes "length (filter (\<lambda>u. fetch u \<noteq> None) us) < 100"
  shows "rank_candidates fetch score mw (filter (\<lambda>u. \<not> rejected fetch mw u) us) = rank_candidates fetch score mw us"
proof -
  have "observe (scan fetch score mw (filter (\<lambda>u. \<not> rejected fetch mw u) us)) = observe (scan fetch score mw us)"
    unfolding scan_def using assms by (intro skip_rejected) (simp_all add: init_state_def)
  then show ?thesis by (simp only: rank_candidates_observe)
qed

lemma rank_result_origin:
  assumes "rank_candidates fetch score mw us = Inr (Some data, Some ext)"
  shows "\<exists>u\<in>set us. \<exists>w h ct. fetch u = Some (data, w, h, ct) \<and> mw \<le> w \<and> h \<noteq> 0
           \<and> 1.2 \<le> real_of_int w / real_of_int h \<and> ext = infer_ext u (Some ct)"
proof -
  from assms obtain e st p sc where s: "scan fetch score mw us = Inr (e, st, p)" and b: "best st = Some (sc, data, ext)"
    by (auto simp: rank_candidates_def split: if_splits sum.splits prod.splits option.splits)
  from s have "scan_loop (scan_body fetch score mw) us init_state = Inr (e, st, p)"
    by (simp add: scan_def)
  from loop_best_origin [OF this b] have "(sc, data, ext) \<in> set (valid_scored fetch score mw us)"
    by (simp add: init_state_def)
  from valid_scored_mem [OF this] obtain u img where u: "u \<in> set us" "fetch u = Some img"
      "qualifies mw img" "(sc, data, ext) = scored score u img"
    by blast
  obtain d w h ct where img: "img = (d, w, h, ct)" by (cases img) auto
  with u have "fetch u = Some (data, w, h, ct) \<and> mw \<le> w \<and> h \<noteq> 0
           \<and> 1.2 \<le> real_of_int w / real_of_int h \<and> ext = infer_ext u (Some ct)"
    by (simp add: qualifies_def scored_def)
  with u(1) show ?thesis by blast
qed

text \<open>
  C4 as stated lets a filtered candidate change no state of the scan and never influence
  the result. A downloaded image that fails a filter still counts as checked, and the
  safety cap reads that counter: behind a hundred narrow images the loop stops at \<open>a\<close>
  and returns it, while without them it goes on to \<open>b\<close> and returns that.
\<close>

theorem rejected_influence_counterexample:
  "rank_candidates cap_fetch cap_score 1280 (narrow_urls @ [''a'', ''b'']) = Inr (Some ''A'', Some ''.jpg'')
   \<and> rank_candidates cap_fetch cap_score 1280 [''a'', ''b''] = Inr (Some ''B'', Some ''.jpg'')
   \<and> cap_fetch (hd narrow_urls) = Some (''N'', 500, 281, ''image/jpeg'')
   \<and> scan_body cap_fetch cap_score 1280 init_state (hd narrow_urls)
       = Inr (Next, \<lparr>best = None, checked = 1, valid_candidates = 0\<rparr>)"
proof -
  have h: "hd narrow_urls = ''n''"
    by (simp add: narrow_urls_def upt_conv_Cons)
  have "rank_candidates cap_fetch cap_score 1280 (narrow_urls @ [''a'', ''b'']) = Inr (Some ''A'', Some ''.jpg'')"
    by (simp add: rank_candidates_def cap_run)
  moreover have "rank_candidates cap_fetch cap_score 1280 [''a'', ''b''] = Inr (Some ''B'', Some ''.jpg'')"
    by (simp add: rank_candidates_def short_run)
  moreover have "cap_fetch ''n'' = Some (''N'', 500, 281, ''image/jpeg'')"
    by (simp add: cap_fetch_def)
  moreover have "scan_body cap_fetch cap_score 1280 init_state ''n''
       = Inr (Next, \<lparr>best = None, checked = 1, valid_candidates = 0\<rparr>)"
    by (simp add: scan_body_def cap_fetch_def init_state_def)
  ultimately show ?thesis by (simp add: h)
qed

text \<open>
  C4, amended. A candidate that fails to download, is narrower than the minimum width or
  has a ratio below 1.2 never becomes Best-So-Far: the bytes and extension returned
  always come from a listed URL that downloaded and passed both filters, whatever the
  scores (a 500 pixel wide image scored -100 loses to a 2000 pixel wide one scored 0.5).
  A failed download changes no state of the scan. A downloaded candidate that fails a
  filter changes only the counter of checked images; as long as fewer than 100 URLs of
  the list download, removing every failing candidate from the list leaves the returned
  result unchanged.
\<close>

theorem rejected_never_selected:
  "(rank_candidates fetch score mw us = Inr (Some data, Some ext) \<longrightarrow>
      (\<exists>u\<in>set us. \<exists>w h ct. fetch u = Some (data, w, h, ct) \<and> mw \<le> w \<and> h \<noteq> 0
         \<and> 1.2 \<le> real_of_int w / real_of_int h \<and> ext = infer_ext u (Some ct)))
   \<and> (fetch u = None \<longrightarrow> scan_body fetch score mw st u = Inr (Next, st))
   \<and> (rejected fetch mw v \<and> fetch v \<noteq> None \<longrightarrow>
        scan_body fetch score mw st v = Inr (Next, st\<lparr>checked := checked st + 1\<rparr>))
   \<and> (length (filter (\<lambda>u. fetch u \<noteq> None) us) < 100 \<longrightarrow>
        rank_candidates fetch score mw (filter (\<lambda>u. \<not> rejected fetch mw u) us)
          = rank_candidates fetch score mw us)"
proof -
  have 1: "rank_candidates fetch score mw us = Inr (Some data, Some ext) \<longrightarrow>
      (\<exists>u\<in>set us. \<exists>w h ct. fetch u = Some (data, w, h, ct) \<and> mw \<le> w \<and> h \<noteq> 0
         \<and> 1.2 \<le> real_of_int w / real_of_int h \<and> ext = infer_ext u (Some ct))"
    using rank_result_origin by blast
  have 2: "fetch u = None \<longrightarrow> scan_body fetch score mw st u = Inr (Next, st)"
    by (simp add: body_fail)
  have 3: "rejected fetch mw v \<and> fetch v \<noteq> None \<longrightarrow>
        scan_body fetch score mw st v = Inr (Next, st\<lparr>checked := checked st + 1\<rparr>)"
    using rejected_body by blast
  have 4: "length (filter (\<lambda>u. fetch u \<noteq> None) us) < 100 \<longrightarrow>
        rank_candidates fetch score mw (filter (\<lambda>u. \<not> rejected fetch mw u) us)
          = rank_candidates fetch score mw us"
    using rank_skip_rejected by blast
  from 1 2 3 4 show ?thesis by blast
qed

theorem rejected_never_selected_witness:
  "demo_fetch ''x'' = None
   \<and> scan_body demo_fetch demo_score 1280 init_state ''x'' = Inr (Next, init_state)
   \<and> rejected demo_fetch 1280 ''n'' \<and> demo_fetch ''n'' \<noteq> None
   \<and> demo_score ''N'' 500 281 = - 100 \<and> demo_score ''W'' 2000 1125 = 0.5
   \<and> length (filter (\<lambda>u. demo_fetch u \<noteq> None) [''x'', ''n'', ''w'']) < 100
   \<and> scan_body demo_fetch demo_score 1280 init_state ''n'' = Inr (Next, init_state\<lparr>checked := checked init_state + 1\<rparr>)
   \<and> rank_candidates demo_fetch demo_score 1280 [''x'', ''n'', ''w''] = Inr (Some ''W'', Some ''.jpg'')
   \<and> rank_candidates demo_fetch demo_score 1280 (filter (\<lambda>u. \<not> rejected demo_fetch 1280 u) [''x'', ''n'', ''w''])
       = Inr (Some ''W'', Some ''.jpg'')"
proof -
  have r: "rank_candidates demo_fetch demo_score 1280 [''x'', ''n'', ''w''] = Inr (Some ''W'', Some ''.jpg'')"
    by (simp add: demo_simps)
  have f: "demo_fetch ''x'' = None \<and> length (filter (\<lambda>u. demo_fetch u \<noteq> None) [''x'', ''n'', ''w'']) < 100"
    by (simp add: demo_fetch_def)
  from rejected_never_selected [of demo_fetch demo_score 1280 "[''x'', ''n'', ''w'']" "''W''" "''.jpg''"
      "''x''" init_state "''n''"] r f demo_nw_facts
  show ?thesis by simp
qed

text \<open>
  C6. A fetch or decode error skips that candidate only: the loop goes on with the state
  unchanged, the result on any list equals the result on the sublist of the candidates
  that download, and when the first two URLs raise and the third downloads and passes the
  filters, the third candidate's bytes and extension are returned.
\<close>

theorem fetch_errors_skip_only:
  "rank_candidates fetch score mw (filter (\<lambda>u. fetch u \<noteq> None) us) = rank_candidates fetch score mw us
   \<and> (fetch u = None \<longrightarrow> scan_body fetch score mw st u = Inr (Next, st))
   \<and> (fetch u1 = None \<and> fetch u2 = None \<and> fetch u3 = Some (data, w, h, ct) \<and> qualifies mw (data, w, h, ct) \<longrightarrow>
        rank_candidates fetch score mw [u1, u2, u3] = Inr (Some data, Some (infer_ext u3 (Some ct))))"
proof -
  have 3: "rank_candidates fetch score mw [u1, u2, u3] = Inr (Some data, Some (infer_ext u3 (Some ct)))"
    if f: "fetch u1 = None" "fetch u2 = None" "fetch u3 = Some (data, w, h, ct)" and q: "qualifies mw (data, w, h, ct)"
  proof -
    have "scan_body fetch score mw init_state u3
        = Inr (verdict (accept init_state (scored score u3 (data, w, h, ct))), accept init_state (scored score u3 (data, w, h, ct)))"
      using f(3) q by (rule body_valid)
    moreover have "verdict (accept init_state (scored score u3 (data, w, h, ct))) = Next"
      by (simp add: verdict_def good_enough_def accept_def init_state_def split: option.splits)
    ultimately show ?thesis
      using f by (simp add: rank_candidates_def scan_def body_fail accept_def init_state_def improve_def scored_def)
  qed
  from rank_skip_failed [of fetch score mw us] body_fail [of fetch u score mw st] 3 show ?thesis
    by blast
qed

theorem fetch_errors_skip_only_witness:
  "demo_fetch ''x'' = None \<and> demo_fetch ''y'' = None \<and> demo_fetch ''b'' = Some (''B'', 2560, 1440, ''image/png'')
   \<and> qualifies 1280 (''B'', 2560, 1440, ''image/png'')
   \<and> rank_candidates demo_fetch demo_score 1280 [''x'', ''y'', ''b''] = Inr (Some ''B'', Some ''.png'')"
  using fetch_errors_skip_only [of demo_fetch demo_score 1280 "[]" "''x''" init_state "''x''" "''y''" "''b''" "''B''" 2560 1440 "''image/png''"]
    demo_xyb
  by simp

section \<open>Early exit\<close>

text \<open>
  C5. With the threshold 0.3 and the minimum of 2 valid candidates: if the scan of an
  initial part of the list leaves a best score below 0.3 with at least 2 filter-passing
  candidates examined, the loop has ended by the early exit there, the scan of the whole
  list ends in the same state having probed the same URLs, all within that initial part:
  no further candidate is fetched.
\<close>

theorem early_exit_stops_probing:
  assumes "scan fetch score mw pre = Inr (e, st, p)"
    and "best st = Some b" and "fst b < 0.3" and "2 \<le> valid_candidates st"
  shows "e = EarlyExit \<and> scan fetch score mw (pre @ rest) = Inr (EarlyExit, st, p)
    \<and> p = take (length p) pre"
proof -
  from assms(1) have l: "scan_loop (scan_body fetch score mw) pre init_state = Inr (e, st, p)"
    by (simp add: scan_def)
  have "\<not> good_enough init_state"
    by (simp add: good_enough_def init_state_def)
  from early_exit_iff [OF l this] assms(2,3,4) have e: "e = EarlyExit"
    by (simp add: good_enough_def)
  with l have "scan_loop (scan_body fetch score mw) (pre @ rest) init_state = Inr (EarlyExit, st, p)"
    by (intro loop_stop_append) simp_all
  with e loop_prefix [OF l] show ?thesis by (simp add: scan_def)
qed

theorem early_exit_stops_probing_witness:
  "scan demo_fetch demo_score 1280 [''w'', ''g'']
     = Inr (EarlyExit, \<lparr>best = Some (0.25, ''G'', ''.webp''), checked = 2, valid_candidates = 2\<rparr>, [''w'', ''g''])
   \<and> fst (0.25 :: real, ''G'', ''.webp'') < 0.3
   \<and> scan demo_fetch demo_score 1280 ([''w'', ''g''] @ [''a'', ''b'', ''c''])
     = Inr (EarlyExit, \<lparr>best = Some (0.25, ''G'', ''.webp''), checked = 2, valid_candidates = 2\<rparr>, [''w'', ''g''])"
proof -
  have b: "best \<lparr>best = Some (0.25 :: real, ''G'', ''.webp''), checked = 2, valid_candidates = 2\<rparr> = Some (0.25, ''G'', ''.webp'')"
    by simp
  have s: "fst (0.25 :: real, ''G'', ''.webp'') < 0.3" by simp
  have v: "2 \<le> valid_candidates \<lparr>best = Some (0.25 :: real, ''G'', ''.webp''), checked = 2, valid_candidates = 2\<rparr>"
    by simp
  from early_exit_stops_probing [OF demo_wg b s v, of "[''a'', ''b'', ''c'']"] demo_wg s
  show ?thesis by blast
qed

end
